theory Spec2Isabelle
  imports Main "HOL-Library.Multiset"
begin

section \<open>Errors, contexts and callbacks\<close>

text \<open>
  Go \<^verbatim>\<open>error\<close> values.  \<open>Canceled\<close> and \<open>DeadlineExceeded\<close> are the two values a
  \<^verbatim>\<open>context.Context\<close> reports through \<^verbatim>\<open>Err()\<close>; \<open>ErrorString\<close> is an error made
  from a message (\<^verbatim>\<open>errors.New\<close>, \<^verbatim>\<open>fmt.Errorf\<close>); \<open>JoinError\<close> is the value built
  by \<^verbatim>\<open>errors.Join\<close>.  A nil error is \<open>None\<close> of type \<open>error option\<close>.
\<close>

datatype error = Canceled | DeadlineExceeded | ErrorString string | JoinError "error list"

fun nonnil :: "'a option list \<Rightarrow> 'a list" where
  "nonnil [] = []"
| "nonnil (None # xs) = nonnil xs"
| "nonnil (Some x # xs) = x # nonnil xs"

text \<open>
  \<^verbatim>\<open>errors.Join(errs...)\<close> of the standard library: nil values are discarded, the
  result is nil when nothing remains, otherwise one error wrapping what remains, in order.
\<close>

definition Join :: "error option list \<Rightarrow> error option" where
  "Join errs = (if nonnil errs = [] then None else Some (JoinError (nonnil errs)))"

text \<open>\<^verbatim>\<open>Unwrap() []error\<close>: the underlying failures of a combined error.\<close>

fun Unwrap :: "error \<Rightarrow> error list" where
  "Unwrap (JoinError es) = es"
| "Unwrap e = []"

text \<open>
  \<^verbatim>\<open>fmt.Errorf("hook function panic: %v", r)\<close>; a panic value is represented by its
  \<^verbatim>\<open>%v\<close> rendering.
\<close>

definition panicError :: "string \<Rightarrow> error" where
  "panicError v = ErrorString (''hook function panic: '' @ v)"

text \<open>
  What one call of a callback does: it returns an error or nil, it panics, or it does
  not come back (yet).  A callback (\<^verbatim>\<open>HookFunc\<close>, \<^verbatim>\<open>ShutdownFunc\<close>:
  \<^verbatim>\<open>func(context.Context) error\<close>) is given by its behaviour as a function of what the
  context reports through \<^verbatim>\<open>Err()\<close> at the moment the call is observed.

  A panic carries the value that \<^verbatim>\<open>recover()\<close> will hand out: \<open>Some v\<close> for a value
  that is not nil, with \<open>v\<close> its \<^verbatim>\<open>%v\<close> rendering, and \<open>None\<close> for nil.  The latter
  is \<^verbatim>\<open>panic(nil)\<close> under a runtime that passes the nil on (Go before 1.21, or
  \<^verbatim>\<open>GODEBUG=panicnil=1\<close>); a runtime that replaces it by a
  \<^verbatim>\<open>*runtime.PanicNilError\<close> makes \<^verbatim>\<open>panic(nil)\<close> a panic with that value.
\<close>

datatype outcome = Return "error option" | Panic "string option" | Block

type_synonym HookFunc = "error option \<Rightarrow> outcome"

text \<open>The nil function value: calling it panics.\<close>

definition nilFunc :: HookFunc where
  "nilFunc =
     (\<lambda>_. Panic (Some ''runtime error: invalid memory address or nil pointer dereference''))"

section \<open>Slices over an explicit store\<close>

text \<open>
  A slice is a pointer to a backing array, a length and a capacity.  The store is the list
  of all backing arrays allocated so far; an address is an index into it.  The nil slice
  has length and capacity 0, so its pointer is never followed.
\<close>

record slice =
  ptr :: nat
  len :: nat
  cap :: nat

type_synonym store = "HookFunc list list"

definition nil_slice :: slice where
  "nil_slice = \<lparr>ptr = 0, len = 0, cap = 0\<rparr>"

text \<open>\<^verbatim>\<open>make([]HookFunc, n, c)\<close>: a fresh array of \<open>c\<close> nil functions.\<close>

definition make_slice :: "nat \<Rightarrow> nat \<Rightarrow> store \<Rightarrow> store \<times> slice" where
  "make_slice n c h = (h @ [replicate c nilFunc], \<lparr>ptr = length h, len = n, cap = c\<rparr>)"

text \<open>\<^verbatim>\<open>copy(dst, src)\<close>: the first \<open>min (len dst) (len src)\<close> elements are copied.\<close>

definition copy_slice :: "slice \<Rightarrow> slice \<Rightarrow> store \<Rightarrow> store" where
  "copy_slice dst src h =
     (let n = min (len dst) (len src)
      in if n = 0 then h
         else h[ptr dst := take n (h ! ptr src) @ drop n (h ! ptr dst)])"

text \<open>\<open>s[i]\<close>; \<open>None\<close> is the index-out-of-range panic.\<close>

definition at :: "store \<Rightarrow> slice \<Rightarrow> nat \<Rightarrow> HookFunc option" where
  "at h s i = (if i < len s then Some (h ! ptr s ! i) else None)"

text \<open>The elements of a slice, in order.\<close>

definition elems :: "store \<Rightarrow> slice \<Rightarrow> HookFunc list" where
  "elems h s = (if len s = 0 then [] else take (len s) (h ! ptr s))"

text \<open>
  \<^verbatim>\<open>append(s, xs...)\<close>.  Within capacity the elements are written into the backing
  array of \<open>s\<close>, behind its length.  Beyond capacity a new array is allocated, the old
  elements are copied and the new ones written.  How much room the runtime adds when it
  reallocates is its own business: \<open>spare\<close> is the number of cells it grants beyond the
  \<open>len s + length xs\<close> that are needed.
\<close>

definition append_slice :: "nat \<Rightarrow> slice \<Rightarrow> HookFunc list \<Rightarrow> store \<Rightarrow> store \<times> slice" where
  "append_slice spare s xs h =
     (let n = len s + length xs
      in if n \<le> cap s
         then (if xs = [] then (h, s)
               else (h[ptr s := elems h s @ xs @ drop n (h ! ptr s)], s\<lparr>len := n\<rparr>))
         else (h @ [elems h s @ xs @ replicate spare nilFunc],
               \<lparr>ptr = length h, len = n, cap = n + spare\<rparr>))"

section \<open>The registries\<close>

text \<open>
  The memory of the process: the backing arrays, the registry objects (a
  \<^verbatim>\<open>*Registry\<close> or \<^verbatim>\<open>*shutdowner\<close> is an index into \<open>regs\<close>; the object's one data
  field, \<^verbatim>\<open>hooks\<close> or \<^verbatim>\<open>funcs\<close>, is the slice stored there), and the package variables
  \<^verbatim>\<open>once\<close> and \<^verbatim>\<open>inst\<close> of package shutdown.
\<close>

record world =
  arrays :: store
  regs :: "slice list"
  once :: bool
  inst :: "nat option"

subsection \<open>Package hook\<close>

text \<open>\<^verbatim>\<open>New\<close>: a new registry object with an empty slice of capacity 10.\<close>

definition New :: "world \<Rightarrow> world \<times> nat" where
  "New w =
     (let (h, s) = make_slice 0 10 (arrays w)
      in (w\<lparr>arrays := h, regs := regs w @ [s]\<rparr>, length (regs w)))"

text \<open>\<^verbatim>\<open>Add\<close>: \<^verbatim>\<open>r.hooks = append(r.hooks, funcs...)\<close>, under the lock.\<close>

definition Add :: "nat \<Rightarrow> nat \<Rightarrow> HookFunc list \<Rightarrow> world \<Rightarrow> world" where
  "Add spare r funcs w =
     (let (h, s) = append_slice spare (regs w ! r) funcs (arrays w)
      in w\<lparr>arrays := h, regs := (regs w)[r := s]\<rparr>)"

text \<open>\<^verbatim>\<open>Clear\<close>: \<^verbatim>\<open>r.hooks = r.hooks[:0]\<close>, under the lock.\<close>

definition Clear :: "nat \<Rightarrow> world \<Rightarrow> world" where
  "Clear r w = w\<lparr>regs := (regs w)[r := (regs w ! r)\<lparr>len := 0\<rparr>]\<rparr>"

text \<open>\<^verbatim>\<open>Len\<close>: \<^verbatim>\<open>len(r.hooks)\<close>, under the lock; a Go \<^verbatim>\<open>int\<close>.\<close>

definition Len :: "nat \<Rightarrow> world \<Rightarrow> int" where
  "Len r w = int (len (regs w ! r))"

text \<open>\<^verbatim>\<open>IsEmpty\<close>: \<^verbatim>\<open>r.Len() == 0\<close>.\<close>

definition IsEmpty :: "nat \<Rightarrow> world \<Rightarrow> bool" where
  "IsEmpty r w = (Len r w = 0)"

subsection \<open>Package shutdown\<close>

text \<open>
  \<^verbatim>\<open>New\<close>: \<^verbatim>\<open>once.Do(func() { inst = &shutdowner{} }); return inst\<close>.  The result is
  the pointer held by \<^verbatim>\<open>inst\<close> (\<open>None\<close> is the nil pointer).
\<close>

definition shutdown_New :: "world \<Rightarrow> world \<times> nat option" where
  "shutdown_New w =
     (let w' = (if once w then w
                else w\<lparr>regs := regs w @ [nil_slice], once := True,
                       inst := Some (length (regs w))\<rparr>)
      in (w', inst w'))"

text \<open>\<^verbatim>\<open>Add\<close>: \<^verbatim>\<open>s.funcs = append(s.funcs, funcs...)\<close>, under the lock.\<close>

definition shutdown_Add :: "nat \<Rightarrow> nat \<Rightarrow> HookFunc list \<Rightarrow> world \<Rightarrow> world" where
  "shutdown_Add spare s funcs w =
     (let (h, sl) = append_slice spare (regs w ! s) funcs (arrays w)
      in w\<lparr>arrays := h, regs := (regs w)[s := sl]\<rparr>)"

text \<open>\<^verbatim>\<open>Len\<close>: \<^verbatim>\<open>len(s.funcs)\<close>, under the lock.\<close>

definition shutdown_Len :: "nat \<Rightarrow> world \<Rightarrow> int" where
  "shutdown_Len s w = int (len (regs w ! s))"

text \<open>\<^verbatim>\<open>Clear\<close>: \<^verbatim>\<open>s.funcs = nil\<close>, under the lock.\<close>

definition shutdown_Clear :: "nat \<Rightarrow> world \<Rightarrow> world" where
  "shutdown_Clear s w = w\<lparr>regs := (regs w)[s := nil_slice]\<rparr>"

section \<open>One run, step by step\<close>

text \<open>
  A run is concurrent: the goroutine that called \<^verbatim>\<open>Run\<close> or \<^verbatim>\<open>Shutdown\<close> (the
  coordinator), one goroutine per launched callback, the code that cancels the context,
  and other goroutines calling \<^verbatim>\<open>Add\<close> or \<^verbatim>\<open>Clear\<close>.  A configuration holds what
  they share; each of them moves it by atomic steps, and a schedule (a list of actions)
  says who moves next.  A step that cannot be taken now (a blocked goroutine) is \<open>None\<close>.

  The grain of the steps: a goroutine's call of its callback, its send and its
  \<^verbatim>\<open>wg.Done()\<close> are one step, and so are the coordinator's locked section and the two
  tests that follow it.  Nothing that another goroutine reads lies in between: a sent
  value is read by the coordinator only, and a cancellation or an \<^verbatim>\<open>Add\<close> that falls
  between the unlock and the tests does what it would do just before the lock or just
  after the tests.

  \<open>pc\<close> is the coordinator's position: \<open>Start\<close> before it takes the lock;
  \<open>Launching k\<close> at the head of the launch loop with \<open>i = k - 1\<close> (so \<open>Launching 0\<close>
  is the loop's exit); \<open>Selecting errs\<close> at the head of the \<^verbatim>\<open>select\<close> loop of
  \<^verbatim>\<open>Shutdown\<close> with \<^verbatim>\<open>shutdownErrs = errs\<close>; \<open>Done e\<close> when it has returned \<open>e\<close>;
  \<open>Crashed v\<close> when the process has died of a panic nobody recovered.

  A launched goroutine is a pair of the function it was given and, once the call is over,
  what the call did.  \<open>wg\<close> is the counter of the \<^verbatim>\<open>sync.WaitGroup\<close>, \<open>chan\<close> the
  content of the buffered error channel, oldest first, \<open>chan_cap\<close> its capacity,
  \<open>closed\<close> whether it is closed, \<open>closer\<close> whether the goroutine that waits and
  closes has been started, \<open>locked\<close> whether the registry's mutex is held, \<open>snap\<close> the
  coordinator's local slice (\<^verbatim>\<open>hooks\<close>, \<^verbatim>\<open>funcs\<close>).
\<close>

datatype pc = Start | Launching nat | Selecting "error list" | Done "error option"
  | Crashed string

record config =
  mem :: world
  ctx_err :: "error option"
  snap :: slice
  tasks :: "(HookFunc \<times> outcome option) list"
  chan :: "error option list"
  chan_cap :: nat
  closed :: bool
  wg :: int
  closer :: bool
  locked :: bool
  pc :: pc

definition init :: "world \<Rightarrow> error option \<Rightarrow> config" where
  "init w e = \<lparr>mem = w, ctx_err = e, snap = nil_slice, tasks = [], chan = [], chan_cap = 0,
               closed = False, wg = 0, closer = False, locked = False, pc = Start\<rparr>"

text \<open>
  A send on the buffered channel blocks while the buffer is full.  (The channel is closed
  only after the wait group has come down to zero, that is after the last sender is
  through, so no send meets a closed channel.)
\<close>

definition send :: "error option \<Rightarrow> config \<Rightarrow> config option" where
  "send v c = (if length (chan c) < chan_cap c then Some (c\<lparr>chan := chan c @ [v]\<rparr>) else None)"

text \<open>The end of goroutine \<open>j\<close>: its call did \<open>out\<close>, and the deferred \<^verbatim>\<open>wg.Done()\<close> runs.\<close>

definition finish :: "nat \<Rightarrow> outcome \<Rightarrow> config \<Rightarrow> config" where
  "finish j out c = c\<lparr>tasks := (tasks c)[j := (fst (tasks c ! j), Some out)], wg := wg c - 1\<rparr>"

text \<open>The context is cancelled, or its deadline passes: once, and for good.\<close>

definition cancel :: "error \<Rightarrow> config \<Rightarrow> config option" where
  "cancel e c =
     (if ctx_err c = None \<and> (e = Canceled \<or> e = DeadlineExceeded)
      then Some (c\<lparr>ctx_err := Some e\<rparr>) else None)"

subsection \<open>\<^verbatim>\<open>Registry.Run\<close> (hook.go, the registry that keeps its hooks)\<close>

text \<open>
  The goroutine of hook.go: the callback is called; a returned error is sent; a panic is
  recovered by the deferred function, and \<open>panicError\<close> is sent
  \<^verbatim>\<open>if r := recover(); r != nil\<close>, so nothing is sent for a panic whose value is nil;
  \<^verbatim>\<open>wg.Done()\<close> runs last.  A call that blocks takes no step.
\<close>

definition hook_task :: "nat \<Rightarrow> config \<Rightarrow> config option" where
  "hook_task j c =
     (if j < length (tasks c) then
        (case tasks c ! j of
           (fn, Some out) \<Rightarrow> None
         | (fn, None) \<Rightarrow>
             (case fn (ctx_err c) of
                Block \<Rightarrow> None
              | Return None \<Rightarrow> Some (finish j (Return None) c)
              | Return (Some err) \<Rightarrow>
                  map_option (finish j (Return (Some err))) (send (Some err) c)
              | Panic None \<Rightarrow> Some (finish j (Panic None) c)
              | Panic (Some v) \<Rightarrow>
                  map_option (finish j (Panic (Some v))) (send (Some (panicError v)) c)))
      else None)"

text \<open>
  The coordinator of \<^verbatim>\<open>Run\<close>.  From \<open>Start\<close>: the locked section (allocate, copy,
  unlock), the test for an empty snapshot, the test of \<^verbatim>\<open>ctx.Err()\<close>, the creation
  of the channel and \<^verbatim>\<open>wg.Add(len(hooks))\<close>.  From \<open>Launching (Suc i)\<close>: one
  \<^verbatim>\<open>go\<close> statement, with \<^verbatim>\<open>hooks[i]\<close> read now.  From \<open>Launching 0\<close>:
  \<^verbatim>\<open>wg.Wait()\<close>, which blocks until the counter is zero, then the channel is closed
  and drained, and the joined error returned.
\<close>

definition Run :: "nat \<Rightarrow> config \<Rightarrow> config option" where
  "Run r c =
     (case pc c of
        Start \<Rightarrow>
          (let w = mem c;
               (h, hooks) = make_slice (len (regs w ! r)) (len (regs w ! r)) (arrays w);
               h' = copy_slice hooks (regs w ! r) h;
               c' = c\<lparr>mem := w\<lparr>arrays := h'\<rparr>, snap := hooks\<rparr>
           in if len hooks = 0 then Some (c'\<lparr>pc := Done None\<rparr>)
              else (case ctx_err c of
                      Some err \<Rightarrow> Some (c'\<lparr>pc := Done (Some err)\<rparr>)
                    | None \<Rightarrow>
                        Some (c'\<lparr>chan := [], chan_cap := len hooks, closed := False,
                                 wg := int (len hooks), pc := Launching (len hooks)\<rparr>)))
      | Launching (Suc i) \<Rightarrow>
          (case at (arrays (mem c)) (snap c) i of
             None \<Rightarrow> Some (c\<lparr>pc := Crashed ''index out of range''\<rparr>)
           | Some fn \<Rightarrow> Some (c\<lparr>tasks := tasks c @ [(fn, None)], pc := Launching i\<rparr>))
      | Launching 0 \<Rightarrow>
          (if wg c = 0
           then Some (c\<lparr>closed := True, chan := [], pc := Done (Join (chan c))\<rparr>)
           else None)
      | _ \<Rightarrow> None)"

subsection \<open>\<^verbatim>\<open>Registry.Run\<close> (hook.go, the registry that clears itself before the run)\<close>

text \<open>
  From \<open>Start\<close>: \<^verbatim>\<open>funcs := r.funcs; r.funcs = r.funcs[:0]\<close> under the lock, then the
  two tests.  From \<open>Launching (Suc i)\<close>: if the context is cancelled by now, its error is
  sent and the loop left; otherwise \<^verbatim>\<open>funcs[i]\<close> is read, \<^verbatim>\<open>wg.Add(1)\<close>, and the
  goroutine (the same as above) started.  From \<open>Launching 0\<close>: \<^verbatim>\<open>wg.Wait()\<close>, close,
  drain keeping the non-nil values, and nil or the joined error returned.
\<close>

definition Run2 :: "nat \<Rightarrow> config \<Rightarrow> config option" where
  "Run2 r c =
     (case pc c of
        Start \<Rightarrow>
          (let w = mem c;
               funcs = regs w ! r;
               c' = c\<lparr>mem := w\<lparr>regs := (regs w)[r := funcs\<lparr>len := 0\<rparr>]\<rparr>, snap := funcs\<rparr>
           in if len funcs = 0 then Some (c'\<lparr>pc := Done None\<rparr>)
              else (case ctx_err c of
                      Some err \<Rightarrow> Some (c'\<lparr>pc := Done (Some err)\<rparr>)
                    | None \<Rightarrow>
                        Some (c'\<lparr>chan := [], chan_cap := len funcs, closed := False,
                                 wg := 0, pc := Launching (len funcs)\<rparr>)))
      | Launching (Suc i) \<Rightarrow>
          (case ctx_err c of
             Some err \<Rightarrow> map_option (\<lambda>c'. c'\<lparr>pc := Launching 0\<rparr>) (send (Some err) c)
           | None \<Rightarrow>
               (case at (arrays (mem c)) (snap c) i of
                  None \<Rightarrow> Some (c\<lparr>pc := Crashed ''index out of range''\<rparr>)
                | Some fn \<Rightarrow>
                    Some (c\<lparr>wg := wg c + 1, tasks := tasks c @ [(fn, None)],
                            pc := Launching i\<rparr>)))
      | Launching 0 \<Rightarrow>
          (if wg c = 0
           then (let hookErrs = filter (\<lambda>err. err \<noteq> None) (chan c)
                 in Some (c\<lparr>closed := True, chan := [],
                            pc := Done (if length hookErrs = 0 then None else Join hookErrs)\<rparr>))
           else None)
      | _ \<Rightarrow> None)"

subsection \<open>\<^verbatim>\<open>shutdowner.Shutdown\<close> (shutdown.go)\<close>

text \<open>What the dying process prints for the value of a panic nobody recovered.\<close>

definition panic_text :: "string option \<Rightarrow> string" where
  "panic_text v = (case v of None \<Rightarrow> ''nil'' | Some t \<Rightarrow> t)"

text \<open>
  The goroutine of shutdown.go: a returned error is sent, \<^verbatim>\<open>wg.Done()\<close> is deferred,
  and nothing recovers a panic: it ends the process.
\<close>

definition Shutdown_task :: "nat \<Rightarrow> config \<Rightarrow> config option" where
  "Shutdown_task j c =
     (if j < length (tasks c) then
        (case tasks c ! j of
           (fn, Some out) \<Rightarrow> None
         | (fn, None) \<Rightarrow>
             (case fn (ctx_err c) of
                Block \<Rightarrow> None
              | Return None \<Rightarrow> Some (finish j (Return None) c)
              | Return (Some err) \<Rightarrow>
                  map_option (finish j (Return (Some err))) (send (Some err) c)
              | Panic v \<Rightarrow> Some (c\<lparr>pc := Crashed (panic_text v)\<rparr>)))
      else None)"

text \<open>
  The coordinator of \<^verbatim>\<open>Shutdown\<close> up to its \<^verbatim>\<open>select\<close> loop.  From \<open>Start\<close>: the
  lock is taken (and kept until the return, by \<^verbatim>\<open>defer\<close>), and an empty list returns
  nil.  From \<open>Launching (Suc i)\<close>: \<^verbatim>\<open>wg.Add(1)\<close> and one \<^verbatim>\<open>go\<close> statement with
  \<^verbatim>\<open>s.funcs[i]\<close>.  From \<open>Launching 0\<close>: the goroutine that waits and closes is started.
\<close>

definition Shutdown :: "nat \<Rightarrow> config \<Rightarrow> config option" where
  "Shutdown s c =
     (case pc c of
        Start \<Rightarrow>
          (if locked c then None
           else if len (regs (mem c) ! s) = 0 then Some (c\<lparr>pc := Done None\<rparr>)
           else Some (c\<lparr>locked := True, chan := [], chan_cap := len (regs (mem c) ! s),
                        closed := False, closer := False, wg := 0,
                        pc := Launching (len (regs (mem c) ! s))\<rparr>))
      | Launching (Suc i) \<Rightarrow>
          (case at (arrays (mem c)) (regs (mem c) ! s) i of
             None \<Rightarrow> Some (c\<lparr>pc := Crashed ''index out of range''\<rparr>)
           | Some fn \<Rightarrow>
               Some (c\<lparr>wg := wg c + 1, tasks := tasks c @ [(fn, None)], pc := Launching i\<rparr>))
      | Launching 0 \<Rightarrow> Some (c\<lparr>closer := True, pc := Selecting []\<rparr>)
      | _ \<Rightarrow> None)"

text \<open>\<^verbatim>\<open>go func() { wg.Wait(); close(errs) }()\<close>\<close>

definition Shutdown_closer :: "config \<Rightarrow> config option" where
  "Shutdown_closer c =
     (if closer c \<and> \<not> closed c \<and> wg c = 0 then Some (c\<lparr>closed := True\<rparr>) else None)"

text \<open>
  \<^verbatim>\<open>case err, ok := <-errs\<close>: ready when the channel holds a value or is closed.  A
  value is appended to \<^verbatim>\<open>shutdownErrs\<close> unless nil; on the closed and empty channel
  \<^verbatim>\<open>s.funcs = nil\<close> and the joined error is returned.
\<close>

definition Shutdown_recv :: "nat \<Rightarrow> config \<Rightarrow> config option" where
  "Shutdown_recv s c =
     (case pc c of
        Selecting errs \<Rightarrow>
          (case chan c of
             v # vs \<Rightarrow>
               Some (c\<lparr>chan := vs,
                       pc := Selecting (case v of None \<Rightarrow> errs | Some err \<Rightarrow> errs @ [err])\<rparr>)
           | [] \<Rightarrow>
               (if closed c
                then Some (c\<lparr>mem := (mem c)\<lparr>regs := (regs (mem c))[s := nil_slice]\<rparr>,
                             locked := False, pc := Done (Join (map Some errs))\<rparr>)
                else None))
      | _ \<Rightarrow> None)"

text \<open>
  \<^verbatim>\<open>case <-ctx.Done()\<close>: ready once the context is cancelled; the joined error of
  \<^verbatim>\<open>shutdownErrs\<close> and \<^verbatim>\<open>ctx.Err()\<close> is returned.
\<close>

definition Shutdown_ctx_done :: "config \<Rightarrow> config option" where
  "Shutdown_ctx_done c =
     (case pc c of
        Selecting errs \<Rightarrow>
          (case ctx_err c of
             Some err \<Rightarrow>
               Some (c\<lparr>locked := False, pc := Done (Join (map Some errs @ [Some err]))\<rparr>)
           | None \<Rightarrow> None)
      | _ \<Rightarrow> None)"

subsection \<open>Schedules\<close>

text \<open>
  Who moves: the coordinator (\<open>Coord\<close>; inside the \<^verbatim>\<open>select\<close> loop, \<open>Recv\<close> or
  \<open>CtxDone\<close>, whichever ready case the runtime picks), goroutine \<open>j\<close> in launch order
  (\<open>Task j\<close>), the closing goroutine (\<open>Closer\<close>), whoever cancels the context
  (\<open>Cancel e\<close>), or another goroutine calling \<^verbatim>\<open>Add\<close> (\<open>DoAdd spare funcs\<close>) or
  \<^verbatim>\<open>Clear\<close> (\<open>DoClear\<close>) on the same registry; these two wait while the mutex is held.
\<close>

datatype action = Coord | Recv | CtxDone | Task nat | Closer | Cancel error
  | DoAdd nat "HookFunc list" | DoClear

fun hook_step :: "nat \<Rightarrow> action \<Rightarrow> config \<Rightarrow> config option" where
  "hook_step r Coord c = Run r c"
| "hook_step r (Task j) c = hook_task j c"
| "hook_step r (Cancel e) c = cancel e c"
| "hook_step r (DoAdd spare funcs) c = Some (c\<lparr>mem := Add spare r funcs (mem c)\<rparr>)"
| "hook_step r DoClear c = Some (c\<lparr>mem := Clear r (mem c)\<rparr>)"
| "hook_step r a c = None"

text \<open>The clearing registry has no \<^verbatim>\<open>Clear\<close>.\<close>

fun hook2_step :: "nat \<Rightarrow> action \<Rightarrow> config \<Rightarrow> config option" where
  "hook2_step r Coord c = Run2 r c"
| "hook2_step r (Task j) c = hook_task j c"
| "hook2_step r (Cancel e) c = cancel e c"
| "hook2_step r (DoAdd spare funcs) c = Some (c\<lparr>mem := Add spare r funcs (mem c)\<rparr>)"
| "hook2_step r a c = None"

fun shutdown_step :: "nat \<Rightarrow> action \<Rightarrow> config \<Rightarrow> config option" where
  "shutdown_step s Coord c = Shutdown s c"
| "shutdown_step s Recv c = Shutdown_recv s c"
| "shutdown_step s CtxDone c = Shutdown_ctx_done c"
| "shutdown_step s (Task j) c = Shutdown_task j c"
| "shutdown_step s Closer c = Shutdown_closer c"
| "shutdown_step s (Cancel e) c = cancel e c"
| "shutdown_step s (DoAdd spare funcs) c =
     (if locked c then None else Some (c\<lparr>mem := shutdown_Add spare s funcs (mem c)\<rparr>))"
| "shutdown_step s DoClear c =
     (if locked c then None else Some (c\<lparr>mem := shutdown_Clear s (mem c)\<rparr>))"

text \<open>A dead process takes no step.\<close>

fun crashed :: "config \<Rightarrow> bool" where
  "crashed c = (case pc c of Crashed v \<Rightarrow> True | _ \<Rightarrow> False)"

fun exec :: "(action \<Rightarrow> config \<Rightarrow> config option) \<Rightarrow> action list \<Rightarrow> config \<Rightarrow> config option"
  where
  "exec step [] c = Some c"
| "exec step (a # as) c =
     (if crashed c then None
      else (case step a c of None \<Rightarrow> None | Some c' \<Rightarrow> exec step as c'))"

text \<open>Schedules in which nobody calls \<^verbatim>\<open>Add\<close>.\<close>

fun is_add :: "action \<Rightarrow> bool" where
  "is_add (DoAdd spare funcs) = True"
| "is_add a = False"

section \<open>Sample data\<close>

text \<open>A process that has allocated nothing yet, and a few callbacks.\<close>

definition empty_world :: world where
  "empty_world = \<lparr>arrays = [], regs = [], once = False, inst = None\<rparr>"

definition ok_hook :: HookFunc where
  "ok_hook = (\<lambda>_. Return None)"

definition failing :: "string \<Rightarrow> HookFunc" where
  "failing m = (\<lambda>_. Return (Some (ErrorString m)))"



definition blocking :: HookFunc where
  "blocking = (\<lambda>_. Block)"

text \<open>
  A registry of package hook with three callbacks added in order: the first and the third
  fail, the second succeeds.
\<close>

definition sample_world :: world where
  "sample_world = Add 0 0 [failing ''a'', ok_hook, failing ''b''] (fst (New empty_world))"



definition stuck_world :: world where
  "stuck_world = Add 0 0 [blocking] (fst (New empty_world))"

definition stuck_shutdowner :: world where
  "stuck_shutdowner = shutdown_Add 0 0 [blocking] (fst (shutdown_New empty_world))"

definition single_world :: world where
  "single_world = Add 0 0 [failing ''first''] (fst (New empty_world))"

section \<open>What a run keeps true\<close>

text \<open>
  The failures of a result: none for nil, the wrapped errors for a joined error.
\<close>

definition failures :: "error option \<Rightarrow> error list" where
  "failures res = (case res of None \<Rightarrow> [] | Some e \<Rightarrow> Unwrap e)"


text \<open>What a launched goroutine has sent, given what its call did (if it is over).\<close>

fun recorded :: "HookFunc \<times> outcome option \<Rightarrow> error list" where
  "recorded (f, Some (Return (Some e))) = [e]"
| "recorded (f, Some (Panic (Some v))) = [panicError v]"
| "recorded (f, out) = []"

text \<open>The number of launched goroutines whose call is not over.\<close>

definition running :: "(HookFunc \<times> outcome option) list \<Rightarrow> nat" where
  "running ts = length (filter (\<lambda>t. snd t = None) ts)"

text \<open>
  What is recorded for a finished goroutine is what its function does for some state of
  the context, and for the state ``not cancelled'' as long as the context is not cancelled.
\<close>

definition observed :: "error option \<Rightarrow> (HookFunc \<times> outcome option) list \<Rightarrow> bool" where
  "observed e ts \<longleftrightarrow>
     (\<forall>t \<in> set ts. \<forall>out. snd t = Some out \<longrightarrow>
        out \<noteq> Block \<and> (\<exists>x. out = fst t x) \<and> (e = None \<longrightarrow> out = fst t None))"

text \<open>
  A registry object is well formed: it exists, its length is within its capacity, and,
  unless the capacity is 0, its pointer is that of an allocated array of that capacity.
  \<^verbatim>\<open>New\<close>, \<^verbatim>\<open>Add\<close> and \<^verbatim>\<open>Clear\<close> of either package keep it so.
\<close>

definition wf_reg :: "world \<Rightarrow> nat \<Rightarrow> bool" where
  "wf_reg w r \<longleftrightarrow>
     r < length (regs w) \<and> len (regs w ! r) \<le> cap (regs w ! r) \<and>
     (cap (regs w ! r) = 0 \<or>
      (ptr (regs w ! r) < length (arrays w) \<and>
       length (arrays w ! ptr (regs w ! r)) = cap (regs w ! r)))"

text \<open>
  The coordinator's slice holds \<open>fs\<close> in an array of its own: no \<^verbatim>\<open>append\<close> through
  the registry can write into it.
\<close>

definition snapshot_is :: "HookFunc list \<Rightarrow> nat \<Rightarrow> config \<Rightarrow> bool" where
  "snapshot_is fs r c \<longleftrightarrow>
     r < length (regs (mem c)) \<and> ptr (snap c) < length (arrays (mem c)) \<and>
     (cap (regs (mem c) ! r) = 0 \<or> ptr (regs (mem c) ! r) \<noteq> ptr (snap c)) \<and>
     len (snap c) = length fs \<and> take (length fs) (arrays (mem c) ! ptr (snap c)) = fs"

text \<open>
  With \<open>k\<close> callbacks of \<open>fs\<close> still to launch, the goroutines launched so far are, in
  launch order, the callbacks from the last one down to number \<open>k\<close>.
\<close>

definition dispatched :: "HookFunc list \<Rightarrow> nat \<Rightarrow> config \<Rightarrow> bool" where
  "dispatched fs k c \<longleftrightarrow>
     k \<le> length fs \<and> map fst (tasks c) = rev (drop k fs) \<and> observed (ctx_err c) (tasks c)"

text \<open>
  The invariant of \<^verbatim>\<open>Run\<close> (hook.go) once it is past its two tests, for the snapshot
  \<open>fs\<close>.  In the launch loop and in \<^verbatim>\<open>wg.Wait()\<close>: the wait group counts the
  callbacks not yet launched and the goroutines still running, and the channel holds what
  the finished goroutines have sent.  After the return: every goroutine is finished and the
  result joins what they have sent, in some order.  The process is never dead.
\<close>

definition inv_hook :: "HookFunc list \<Rightarrow> nat \<Rightarrow> config \<Rightarrow> bool" where
  "inv_hook fs r c \<longleftrightarrow>
     snapshot_is fs r c \<and>
     (case pc c of
        Launching k \<Rightarrow>
          dispatched fs k c \<and> chan_cap c = length fs \<and>
          wg c = int k + int (running (tasks c)) \<and>
          mset (chan c) = mset (map Some (concat (map recorded (tasks c))))
      | Done res \<Rightarrow>
          dispatched fs 0 c \<and> running (tasks c) = 0 \<and>
          (\<exists>es. res = Join (map Some es) \<and> mset es = mset (concat (map recorded (tasks c))))
      | _ \<Rightarrow> False)"

text \<open>
  While \<^verbatim>\<open>Shutdown\<close> holds the mutex, the live list holds \<open>fs\<close>, the channel has room
  for one value per callback, and the wait group counts the goroutines still running.
\<close>

definition live_is :: "HookFunc list \<Rightarrow> nat \<Rightarrow> config \<Rightarrow> bool" where
  "live_is fs s c \<longleftrightarrow>
     locked c \<and> fs \<noteq> [] \<and> len (regs (mem c) ! s) = length fs \<and>
     take (length fs) (arrays (mem c) ! ptr (regs (mem c) ! s)) = fs \<and>
     chan_cap c = length fs \<and> wg c = int (running (tasks c))"

text \<open>
  The invariant of \<^verbatim>\<open>Shutdown\<close> once it is past its first step, for the list \<open>fs\<close>.
  In the \<^verbatim>\<open>select\<close> loop, the channel and \<^verbatim>\<open>shutdownErrs\<close> together hold what the
  finished goroutines have sent, and the channel is closed only when none is running.
  After the return, either the context is cancelled, or every goroutine is finished and the
  result joins what they have sent.
\<close>

definition inv_shutdown :: "HookFunc list \<Rightarrow> nat \<Rightarrow> config \<Rightarrow> bool" where
  "inv_shutdown fs s c \<longleftrightarrow>
     (case pc c of
        Start \<Rightarrow> False
      | Launching k \<Rightarrow>
          live_is fs s c \<and> dispatched fs k c \<and> \<not> closer c \<and> \<not> closed c \<and>
          mset (chan c) = mset (map Some (concat (map recorded (tasks c))))
      | Selecting errs \<Rightarrow>
          live_is fs s c \<and> dispatched fs 0 c \<and> closer c \<and>
          (closed c \<longrightarrow> running (tasks c) = 0) \<and>
          mset (chan c) + mset (map Some errs)
            = mset (map Some (concat (map recorded (tasks c))))
      | Done res \<Rightarrow>
          dispatched fs 0 c \<and>
          (ctx_err c \<noteq> None \<or>
           running (tasks c) = 0 \<and>
           (\<exists>es. res = Join (map Some es) \<and> mset es = mset (concat (map recorded (tasks c)))))
      | Crashed v \<Rightarrow> (\<exists>k. dispatched fs k c))"

text \<open>The shutdowner exists, and its list is empty once \<^verbatim>\<open>Shutdown\<close> has returned.\<close>

definition emptied :: "nat \<Rightarrow> config \<Rightarrow> bool" where
  "emptied s c \<longleftrightarrow>
     s < length (regs (mem c)) \<and> (\<forall>res. pc c = Done res \<longrightarrow> len (regs (mem c) ! s) = 0)"

section \<open>Auxiliary facts\<close>

subsection \<open>Lists, multisets and joined errors\<close>

lemma nonnil_append: "nonnil (xs @ ys) = nonnil xs @ nonnil ys"
  by (induction xs rule: nonnil.induct) simp_all

lemma nonnil_map_Some: "nonnil (map Some xs) = xs"
  by (induction xs) simp_all

lemma mset_nonnil: "mset (nonnil xs) = {#the x. x \<in># filter_mset (\<lambda>x. x \<noteq> None) (mset xs)#}"
  by (induction xs rule: nonnil.induct) simp_all

lemma mset_nonnil_cong: "mset xs = mset ys \<Longrightarrow> mset (nonnil xs) = mset (nonnil ys)"
  by (simp add: mset_nonnil)

lemma mset_map_Some_eq: "mset (map Some xs) = mset (map Some ys) \<Longrightarrow> mset xs = mset ys"
  using mset_nonnil_cong [of "map Some xs" "map Some ys"] by (simp add: nonnil_map_Some)

lemma head_is_Some:
  assumes "mset (v # vs) + M = mset (map Some xs)"
  shows "\<exists>e. v = Some e"
proof -
  have "v \<in># mset (v # vs) + M" by simp
  with assms have "v \<in> set (map Some xs)" by (metis set_mset_mset)
  then show ?thesis by auto
qed

lemma collected_so_far:
  assumes "mset ch + mset (map Some errs) = mset (map Some xs)"
  shows "mset errs \<subseteq># mset xs"
proof -
  from assms have "mset (ch @ map Some errs) = mset (map Some xs)" by simp
  from mset_nonnil_cong [OF this] have "mset (nonnil ch) + mset errs = mset xs"
    by (simp add: nonnil_append nonnil_map_Some)
  then show ?thesis by (metis mset_subset_eq_add_right)
qed

lemma Join_map_Some: "Join (map Some es) = (if es = [] then None else Some (JoinError es))"
  by (simp add: Join_def nonnil_map_Some)

lemma Join_nonnil: "Join xs = Join (map Some (nonnil xs))"
  by (simp add: Join_def nonnil_map_Some)

lemma failures_Join: "failures (Join (map Some es)) = es"
  by (simp add: failures_def Join_map_Some)







subsection \<open>Launched goroutines\<close>

lemma running_append: "running (ts @ us) = running ts + running us"
  by (simp add: running_def)

lemma running_zero: "running ts = 0 \<longleftrightarrow> (\<forall>t \<in> set ts. snd t \<noteq> None)"
  by (auto simp: running_def filter_empty_conv)

lemma running_Nil: "running [] = 0"
  by (simp add: running_def)

lemma running_finish:
  assumes "j < length ts" and "snd (ts ! j) = None"
  shows "int (running (ts[j := (f, Some out)])) = int (running ts) - 1"
proof -
  have a: "ts = take j ts @ [ts ! j] @ drop (Suc j) ts"
    using assms(1) by (simp add: id_take_nth_drop)
  have b: "ts[j := (f, Some out)] = take j ts @ [(f, Some out)] @ drop (Suc j) ts"
    using assms(1) by (simp add: upd_conv_take_nth_drop)
  have "running ts = running (take j ts) + 1 + running (drop (Suc j) ts)"
    by (subst a) (simp add: running_append assms(2), simp add: running_def assms(2))
  moreover have "running (ts[j := (f, Some out)]) = running (take j ts) + running (drop (Suc j) ts)"
    by (subst b) (simp add: running_append, simp add: running_def)
  ultimately show ?thesis by simp
qed


lemma recorded_finish:
  assumes "j < length ts" and "snd (ts ! j) = None"
  shows "mset (concat (map recorded (ts[j := t]))) = mset (concat (map recorded ts)) + mset (recorded t)"
proof -
  have a: "ts = take j ts @ [ts ! j] @ drop (Suc j) ts"
    using assms(1) by (simp add: id_take_nth_drop)
  have b: "ts[j := t] = take j ts @ [t] @ drop (Suc j) ts"
    using assms(1) by (simp add: upd_conv_take_nth_drop)
  have c: "recorded (ts ! j) = []"
    using assms(2) by (cases "ts ! j") simp
  have "mset (concat (map recorded ts))
        = mset (concat (map recorded (take j ts))) + mset (concat (map recorded (drop (Suc j) ts)))"
    by (subst a) (simp add: c)
  moreover have "mset (concat (map recorded (ts[j := t])))
        = mset (concat (map recorded (take j ts))) + mset (recorded t)
          + mset (concat (map recorded (drop (Suc j) ts)))"
    by (subst b) simp
  ultimately show ?thesis by simp
qed


lemma map_fst_finish: "map fst (ts[j := (fst (ts ! j), x)]) = map fst ts"
proof (cases "j < length ts")
  case True
  then have "(map fst ts)[j := map fst ts ! j] = map fst ts" by (simp only: list_update_id)
  with True show ?thesis by (simp add: map_update)
next
  case False
  then show ?thesis by (simp add: not_less list_update_beyond)
qed

lemma observed_Nil: "observed e []"
  by (simp add: observed_def)

lemma observed_append_running: "observed e ts \<Longrightarrow> observed e (ts @ [(f, None)])"
  by (auto simp: observed_def)

lemma observed_cancel: "observed None ts \<Longrightarrow> observed (Some e) ts"
  by (auto simp: observed_def)

lemma observed_finish:
  assumes "observed e ts" and "j < length ts" and "out = fst (ts ! j) e" and "out \<noteq> Block"
  shows "observed e (ts[j := (fst (ts ! j), Some out)])"
  unfolding observed_def
proof (intro ballI allI impI)
  fix t out'
  assume t: "t \<in> set (ts[j := (fst (ts ! j), Some out)])" and o: "snd t = Some out'"
  from t have "t = (fst (ts ! j), Some out) \<or> t \<in> set ts"
    by (meson in_set_conv_nth set_update_subset_insert subsetD insertE)
  then show "out' \<noteq> Block \<and> (\<exists>x. out' = fst t x) \<and> (e = None \<longrightarrow> out' = fst t None)"
  proof
    assume "t = (fst (ts ! j), Some out)"
    with o assms(3,4) show ?thesis by auto
  next
    assume "t \<in> set ts"
    with o assms(1) show ?thesis by (auto simp: observed_def)
  qed
qed



subsection \<open>Composing schedules\<close>

lemma exec_append:
  "exec step (as @ bs) c = (case exec step as c of None \<Rightarrow> None | Some c' \<Rightarrow> exec step bs c')"
  by (induction as arbitrary: c) (auto split: option.splits)

lemma exec_append_Some:
  "exec step as c = Some c1 \<Longrightarrow> exec step bs c1 = Some c2 \<Longrightarrow> exec step (as @ bs) c = Some c2"
  by (simp add: exec_append)

lemma exec_Cons_Some:
  "exec step (a # as) c = Some c' \<Longrightarrow> \<exists>c1. step a c = Some c1 \<and> exec step as c1 = Some c'"
  by (auto split: if_splits option.splits)



subsection \<open>Registries and the store\<close>

text \<open>
  The operations of both packages keep a registry well formed, and neither \<^verbatim>\<open>Add\<close> nor
  \<^verbatim>\<open>Clear\<close> touches an array that the registry does not point to.
\<close>

lemma wf_reg_elems:
  "wf_reg w r \<Longrightarrow> length (elems (arrays w) (regs w ! r)) = len (regs w ! r)"
  by (auto simp: wf_reg_def elems_def)

lemma wf_reg_New: "wf_reg (fst (New w)) (snd (New w))"
  by (simp add: wf_reg_def New_def make_slice_def)

lemma wf_reg_New_other: "wf_reg w r \<Longrightarrow> wf_reg (fst (New w)) r"
  by (auto simp: wf_reg_def New_def make_slice_def nth_append)

lemma wf_reg_Add:
  assumes "wf_reg w r"
  shows "wf_reg (Add spare r funcs w) r"
proof (cases "len (regs w ! r) + length funcs \<le> cap (regs w ! r)")
  case True
  with assms show ?thesis
    by (cases "funcs = []")
      (auto simp: wf_reg_def Add_def append_slice_def elems_def Let_def)
next
  case False
  with assms show ?thesis
    by (auto simp: wf_reg_def Add_def append_slice_def elems_def Let_def)
qed

lemma wf_reg_Clear: "wf_reg w r \<Longrightarrow> wf_reg (Clear r w) r"
  by (auto simp: wf_reg_def Clear_def)

lemma wf_reg_shutdown_New:
  "snd (shutdown_New w) = Some s \<Longrightarrow> \<not> once w \<Longrightarrow> wf_reg (fst (shutdown_New w)) s"
  by (auto simp: wf_reg_def shutdown_New_def nil_slice_def Let_def)

lemma wf_reg_shutdown_New_other: "wf_reg w r \<Longrightarrow> wf_reg (fst (shutdown_New w)) r"
  by (auto simp: wf_reg_def shutdown_New_def nil_slice_def Let_def nth_append)

lemma wf_reg_shutdown_Add: "wf_reg w s \<Longrightarrow> wf_reg (shutdown_Add spare s funcs w) s"
  using wf_reg_Add [of w s spare funcs] by (simp add: shutdown_Add_def Add_def)

lemma wf_reg_shutdown_Clear: "wf_reg w s \<Longrightarrow> wf_reg (shutdown_Clear s w) s"
  by (auto simp: wf_reg_def shutdown_Clear_def nil_slice_def)

lemma Add_frame:
  assumes "p < length (arrays w)" and "cap (regs w ! r) = 0 \<or> ptr (regs w ! r) \<noteq> p"
    and "r < length (regs w)"
  shows "p < length (arrays (Add sp r fs w)) \<and> arrays (Add sp r fs w) ! p = arrays w ! p
       \<and> (cap (regs (Add sp r fs w) ! r) = 0 \<or> ptr (regs (Add sp r fs w) ! r) \<noteq> p)
       \<and> length (regs (Add sp r fs w)) = length (regs w)"
  using assms by (auto simp: Add_def append_slice_def Let_def nth_append)

lemma Clear_frame:
  assumes "cap (regs w ! r) = 0 \<or> ptr (regs w ! r) \<noteq> p" and "r < length (regs w)"
  shows "arrays (Clear r w) = arrays w
       \<and> (cap (regs (Clear r w) ! r) = 0 \<or> ptr (regs (Clear r w) ! r) \<noteq> p)
       \<and> length (regs (Clear r w)) = length (regs w)"
  using assms by (auto simp: Clear_def)

lemma snapshot_is_Add:
  "snapshot_is fs r c \<Longrightarrow> snapshot_is fs r (c\<lparr>mem := Add sp r gs (mem c)\<rparr>)"
  using Add_frame [of "ptr (snap c)" "mem c" r sp gs]
  by (simp add: snapshot_is_def)

lemma snapshot_is_Clear:
  "snapshot_is fs r c \<Longrightarrow> snapshot_is fs r (c\<lparr>mem := Clear r (mem c)\<rparr>)"
  using Clear_frame [of "mem c" r "ptr (snap c)"]
  by (simp add: snapshot_is_def)

lemma snapshot_is_cong:
  "snapshot_is fs r c \<Longrightarrow> mem c' = mem c \<Longrightarrow> snap c' = snap c \<Longrightarrow> snapshot_is fs r c'"
  by (simp add: snapshot_is_def)

lemma at_snapshot:
  "snapshot_is fs r c \<Longrightarrow> i < length fs \<Longrightarrow> at (arrays (mem c)) (snap c) i = Some (fs ! i)"
  by (simp add: at_def snapshot_is_def) (metis nth_take)

lemma at_live:
  "live_is fs s c \<Longrightarrow> i < length fs \<Longrightarrow>
   at (arrays (mem c)) (regs (mem c) ! s) i = Some (fs ! i)"
  by (simp add: at_def live_is_def) (metis nth_take)


subsection \<open>Single steps\<close>

lemma Run_Launching_Suc:
  "pc c = Launching (Suc i) \<Longrightarrow>
   Run r c = (case at (arrays (mem c)) (snap c) i of
                None \<Rightarrow> Some (c\<lparr>pc := Crashed ''index out of range''\<rparr>)
              | Some fn \<Rightarrow> Some (c\<lparr>tasks := tasks c @ [(fn, None)], pc := Launching i\<rparr>))"
  by (simp add: Run_def)

lemma Run_Launching_0:
  "pc c = Launching 0 \<Longrightarrow>
   Run r c = (if wg c = 0
              then Some (c\<lparr>closed := True, chan := [], pc := Done (Join (chan c))\<rparr>)
              else None)"
  by (simp add: Run_def)

lemma Run_Done: "pc c = Done res \<Longrightarrow> Run r c = None"
  by (simp add: Run_def)

lemma Run_Start_step:
  assumes "pc c = Start" and "ctx_err c = None"
  shows "\<exists>c1. Run r c = Some c1
      \<and> (pc c1 = Done None \<and> len (regs (mem c) ! r) = 0 \<or> pc c1 = Launching (len (regs (mem c) ! r)))"
  using assms by (simp add: Run_def make_slice_def Let_def)


lemma hook_task_Some:
  assumes "hook_task j c = Some c'"
  shows "\<exists>f out. j < length (tasks c) \<and> tasks c ! j = (f, None) \<and> out = f (ctx_err c)
           \<and> out \<noteq> Block
           \<and> c' = c\<lparr>chan := chan c @ map Some (recorded (f, Some out)),
                     tasks := (tasks c)[j := (f, Some out)], wg := wg c - 1\<rparr>"
proof -
  from assms have j: "j < length (tasks c)"
    by (simp add: hook_task_def split: if_splits)
  obtain f st where t: "tasks c ! j = (f, st)" by (cases "tasks c ! j")
  from assms j t have st: "st = None"
    by (cases st) (simp_all add: hook_task_def)
  show ?thesis
  proof (cases "f (ctx_err c)")
    case (Return e)
    with assms j t st show ?thesis
      by (cases e) (auto simp: hook_task_def send_def finish_def split: if_splits)
  next
    case (Panic v)
    with assms j t st show ?thesis
      by (cases v) (auto simp: hook_task_def send_def finish_def split: if_splits)
  next
    case Block
    with assms j t st show ?thesis by (simp add: hook_task_def)
  qed
qed





lemma Shutdown_Launching_Suc:
  "pc c = Launching (Suc i) \<Longrightarrow>
   Shutdown s c = (case at (arrays (mem c)) (regs (mem c) ! s) i of
             None \<Rightarrow> Some (c\<lparr>pc := Crashed ''index out of range''\<rparr>)
           | Some fn \<Rightarrow>
               Some (c\<lparr>wg := wg c + 1, tasks := tasks c @ [(fn, None)], pc := Launching i\<rparr>))"
  by (simp add: Shutdown_def)

lemma Shutdown_Launching_0:
  "pc c = Launching 0 \<Longrightarrow> Shutdown s c = Some (c\<lparr>closer := True, pc := Selecting []\<rparr>)"
  by (simp add: Shutdown_def)

lemma Shutdown_other:
  "pc c = Selecting errs \<or> pc c = Done res \<or> pc c = Crashed v \<Longrightarrow> Shutdown s c = None"
  by (auto simp: Shutdown_def)

lemma Shutdown_Start_step:
  assumes "pc c = Start" and "\<not> locked c"
  shows "\<exists>c1. Shutdown s c = Some c1
      \<and> (pc c1 = Done None \<and> len (regs (mem c) ! s) = 0 \<or> pc c1 = Launching (len (regs (mem c) ! s)))"
  using assms by (simp add: Shutdown_def)

lemma Shutdown_ctx_err: "Shutdown s c = Some c' \<Longrightarrow> ctx_err c' = ctx_err c"
proof (cases "pc c")
  case Start
  assume "Shutdown s c = Some c'"
  with Start show ?thesis
    by (auto simp: Shutdown_def split: if_splits)
next
  case (Launching k)
  assume "Shutdown s c = Some c'"
  with Launching show ?thesis
    by (cases k) (auto simp: Shutdown_Launching_0 Shutdown_Launching_Suc split: option.splits)
qed (simp_all add: Shutdown_def)

lemma Shutdown_task_Some:
  assumes "Shutdown_task j c = Some c'"
  shows "\<exists>f out. j < length (tasks c) \<and> tasks c ! j = (f, None) \<and> out = f (ctx_err c)
           \<and> out \<noteq> Block
           \<and> ((\<exists>v. out = Panic v \<and> c' = c\<lparr>pc := Crashed (panic_text v)\<rparr>) \<or>
               (\<exists>e. out = Return e) \<and>
               c' = c\<lparr>chan := chan c @ map Some (recorded (f, Some out)),
                       tasks := (tasks c)[j := (f, Some out)], wg := wg c - 1\<rparr>)"
proof -
  from assms have j: "j < length (tasks c)"
    by (simp add: Shutdown_task_def split: if_splits)
  obtain f st where t: "tasks c ! j = (f, st)" by (cases "tasks c ! j")
  from assms j t have st: "st = None"
    by (cases st) (simp_all add: Shutdown_task_def)
  show ?thesis
  proof (cases "f (ctx_err c)")
    case (Return e)
    with assms j t st show ?thesis
      by (cases e) (auto simp: Shutdown_task_def send_def finish_def split: if_splits)
  next
    case (Panic v)
    with assms j t st show ?thesis
      by (auto simp: Shutdown_task_def)
  next
    case Block
    with assms j t st show ?thesis by (simp add: Shutdown_task_def)
  qed
qed


lemma Run2_Start_clears:
  assumes "pc c = Start" and "r < length (regs (mem c))"
  shows "\<exists>c1. Run2 r c = Some c1 \<and> len (regs (mem c1) ! r) = 0 \<and> tasks c1 = tasks c
           \<and> length (regs (mem c1)) = length (regs (mem c)) \<and> pc c1 \<noteq> Start"
  using assms by (cases "ctx_err c") (simp_all add: Run2_def Let_def)

lemma Run2_mem:
  assumes "Run2 r c = Some c'" and "pc c \<noteq> Start"
  shows "mem c' = mem c \<and> pc c' \<noteq> Start"
proof (cases "pc c")
  case (Launching k)
  with assms(1) show ?thesis
    by (cases k) (auto simp: Run2_def send_def Let_def split: option.splits if_splits)
qed (use assms in \<open>simp_all add: Run2_def\<close>)


subsection \<open>The invariant of \<^verbatim>\<open>Run\<close>\<close>





lemma inv_hook_Run_wait:
  assumes "inv_hook fs r c" and "Run r c = Some c'" and pc: "pc c = Launching 0"
  shows "inv_hook fs r c'"
proof -
    from pc assms have wg0: "wg c = 0"
      and c': "c' = c\<lparr>closed := True, chan := [], pc := Done (Join (chan c))\<rparr>"
      by (auto simp: Run_Launching_0 split: if_splits)
    from assms(1) pc wg0 have r0: "running (tasks c) = 0"
      by (simp add: inv_hook_def)
    from assms(1) pc
    have m: "mset (chan c) = mset (map Some (concat (map recorded (tasks c))))"
      by (simp add: inv_hook_def)
    have "mset (nonnil (chan c)) = mset (concat (map recorded (tasks c)))"
      using mset_nonnil_cong [OF m] by (simp add: nonnil_map_Some)
    moreover have "Join (chan c) = Join (map Some (nonnil (chan c)))" by (rule Join_nonnil)
    ultimately have e: "\<exists>es. Join (chan c) = Join (map Some es)
        \<and> mset es = mset (concat (map recorded (tasks c)))" by blast
    from assms(1) have s: "snapshot_is fs r c'"
      by (auto simp: inv_hook_def c' intro: snapshot_is_cong)
    from assms(1) pc have d: "dispatched fs 0 c'"
      by (simp add: inv_hook_def c' dispatched_def)
    show ?thesis
      unfolding inv_hook_def using s d r0 e by (simp add: c')
qed

lemma inv_hook_Run_launch:
  assumes "inv_hook fs r c" and "Run r c = Some c'" and pc: "pc c = Launching (Suc i)"
  shows "inv_hook fs r c'"
proof -
  from assms(1) pc have i: "i < length fs"
    and t: "map fst (tasks c) = rev (drop (Suc i) fs)"
    and ob: "observed (ctx_err c) (tasks c)"
    and cap: "chan_cap c = length fs"
    and w: "wg c = int (Suc i) + int (running (tasks c))"
    and m: "mset (chan c) = mset (map Some (concat (map recorded (tasks c))))"
    by (simp_all add: inv_hook_def dispatched_def)
  from assms(1) have s: "snapshot_is fs r c" by (simp add: inv_hook_def)
  from pc assms(2) at_snapshot [OF s i]
  have c': "c' = c\<lparr>tasks := tasks c @ [(fs ! i, None)], pc := Launching i\<rparr>"
    by (simp add: Run_Launching_Suc)
  have d: "rev (drop i fs) = rev (drop (Suc i) fs) @ [fs ! i]"
    using i by (simp add: Cons_nth_drop_Suc [symmetric])
  have s': "snapshot_is fs r c'"
    using s by (rule snapshot_is_cong) (simp_all add: c')
  have d': "dispatched fs i c'"
    using i t ob by (simp add: dispatched_def c' d observed_append_running)
  have r': "running (tasks c') = Suc (running (tasks c))"
    by (simp add: c' running_def)
  have rc: "concat (map recorded (tasks c')) = concat (map recorded (tasks c))"
    by (simp add: c')
  show ?thesis
    unfolding inv_hook_def using s' d' cap w m r' rc by (simp add: c')
qed

lemma inv_hook_Run:
  assumes "inv_hook fs r c" and "Run r c = Some c'"
  shows "inv_hook fs r c'"
proof (cases "pc c")
  case (Launching k)
  with assms show ?thesis
    by (cases k) (auto intro: inv_hook_Run_wait inv_hook_Run_launch)
next
  case Start
  with assms(1) show ?thesis by (simp add: inv_hook_def)
next
  case (Selecting errs)
  with assms(1) show ?thesis by (simp add: inv_hook_def)
next
  case (Done res)
  with assms(2) show ?thesis by (simp add: Run_Done)
next
  case (Crashed v)
  with assms(1) show ?thesis by (simp add: inv_hook_def)
qed

lemma inv_hook_task:
  assumes "inv_hook fs r c" and "hook_task j c = Some c'"
  shows "inv_hook fs r c'"
proof -
  from hook_task_Some [OF assms(2)] obtain f out where
    j: "j < length (tasks c)" and t: "tasks c ! j = (f, None)" and out: "out = f (ctx_err c)"
    and nb: "out \<noteq> Block"
    and c': "c' = c\<lparr>chan := chan c @ map Some (recorded (f, Some out)),
                     tasks := (tasks c)[j := (f, Some out)], wg := wg c - 1\<rparr>"
    by blast
  from t have sn: "snd (tasks c ! j) = None" and f: "f = fst (tasks c ! j)" by simp_all
  from assms(1) have s: "snapshot_is fs r c" by (simp add: inv_hook_def)
  have s': "snapshot_is fs r c'"
    using s by (rule snapshot_is_cong) (simp_all add: c')
  have run: "running (tasks c) \<noteq> 0"
    using j sn by (auto simp: running_zero)
  show ?thesis
  proof (cases "pc c")
    case (Launching k)
    with assms(1) have d: "dispatched fs k c" and cap: "chan_cap c = length fs"
      and w: "wg c = int k + int (running (tasks c))"
      and m: "mset (chan c) = mset (map Some (concat (map recorded (tasks c))))"
      by (simp_all add: inv_hook_def)
    have d': "dispatched fs k c'"
      using d observed_finish [of "ctx_err c" "tasks c" j out] j out nb
      by (simp add: dispatched_def c' f map_fst_finish)
    have r': "int (running (tasks c')) = int (running (tasks c)) - 1"
      using running_finish [OF j sn] by (simp add: c')
    have m': "mset (chan c') = mset (map Some (concat (map recorded (tasks c'))))"
      using recorded_finish [OF j sn, of "(f, Some out)"] m by (simp add: c')
    show ?thesis
      unfolding inv_hook_def using s' d' cap w r' m' Launching by (simp add: c')
  next
    case (Done res)
    with assms(1) run show ?thesis by (simp add: inv_hook_def)
  next
    case Start
    with assms(1) show ?thesis by (simp add: inv_hook_def)
  next
    case (Selecting errs)
    with assms(1) show ?thesis by (simp add: inv_hook_def)
  next
    case (Crashed v)
    with assms(1) show ?thesis by (simp add: inv_hook_def)
  qed
qed

lemma inv_hook_cancel:
  assumes "inv_hook fs r c" and "cancel e c = Some c'"
  shows "inv_hook fs r c'"
proof -
  from assms(2) have n: "ctx_err c = None" and c': "c' = c\<lparr>ctx_err := Some e\<rparr>"
    by (auto simp: cancel_def split: if_splits)
  have o: "observed (ctx_err c) (tasks c) \<Longrightarrow> observed (ctx_err c') (tasks c')"
    using observed_cancel [of "tasks c" e] by (simp add: n c')
  from assms(1) have s: "snapshot_is fs r c'"
    by (auto simp: inv_hook_def c' intro: snapshot_is_cong)
  from assms(1) o s show ?thesis
    by (cases "pc c") (simp_all add: inv_hook_def dispatched_def c')
qed

lemma inv_hook_mem:
  assumes "inv_hook fs r c" and "snapshot_is fs r (c\<lparr>mem := w\<rparr>)"
  shows "inv_hook fs r (c\<lparr>mem := w\<rparr>)"
  using assms by (cases "pc c") (simp_all add: inv_hook_def dispatched_def)

lemma inv_hook_step:
  assumes "inv_hook fs r c" and "hook_step r a c = Some c'"
  shows "inv_hook fs r c'"
proof (cases a)
  case Coord
  with assms show ?thesis by (auto intro: inv_hook_Run)
next
  case (Task j)
  with assms show ?thesis by (auto intro: inv_hook_task)
next
  case (Cancel e)
  with assms show ?thesis by (auto intro: inv_hook_cancel)
next
  case (DoAdd sp gs)
  from assms(1) have "snapshot_is fs r c" by (simp add: inv_hook_def)
  then have "snapshot_is fs r (c\<lparr>mem := Add sp r gs (mem c)\<rparr>)" by (rule snapshot_is_Add)
  with assms DoAdd show ?thesis by (auto intro: inv_hook_mem)
next
  case DoClear
  from assms(1) have "snapshot_is fs r c" by (simp add: inv_hook_def)
  then have "snapshot_is fs r (c\<lparr>mem := Clear r (mem c)\<rparr>)" by (rule snapshot_is_Clear)
  with assms DoClear show ?thesis by (auto intro: inv_hook_mem)
qed (use assms in simp_all)

lemma inv_hook_exec:
  "inv_hook fs r c \<Longrightarrow> exec (hook_step r) as c = Some c' \<Longrightarrow> inv_hook fs r c'"
proof (induction as arbitrary: c)
  case Nil
  then show ?case by simp
next
  case (Cons a as)
  then show ?case
    by (auto split: if_splits option.splits dest: inv_hook_step)
qed

lemma Run_Start:
  assumes "pc c = Start" and "wf_reg (mem c) r" and "ctx_err c = None" and "tasks c = []"
    and "Run r c = Some c1"
  shows "inv_hook (elems (arrays (mem c)) (regs (mem c) ! r)) r c1"
proof (cases "len (regs (mem c) ! r) = 0")
  case True
  with assms(1,5) have c1: "c1 = c\<lparr>mem := (mem c)\<lparr>arrays := arrays (mem c) @ [[]]\<rparr>,
      snap := \<lparr>ptr = length (arrays (mem c)), len = 0, cap = 0\<rparr>, pc := Done None\<rparr>"
    by (simp add: Run_def make_slice_def copy_slice_def Let_def)
  from True have e: "elems (arrays (mem c)) (regs (mem c) ! r) = []"
    by (simp add: elems_def)
  from assms(2) have s: "snapshot_is [] r c1"
    by (auto simp: snapshot_is_def c1 wf_reg_def)
  show ?thesis
    unfolding e inv_hook_def using s assms(4)
    by (simp add: c1 dispatched_def observed_Nil running_Nil Join_def)
next
  case False
  let ?h = "arrays (mem c)" and ?s = "regs (mem c) ! r"
  let ?n = "len ?s"
  let ?fs = "take ?n (?h ! ptr ?s)"
  from False assms(2) have p: "ptr ?s < length ?h" and l: "?n \<le> length (?h ! ptr ?s)"
    and r: "r < length (regs (mem c))"
    by (auto simp: wf_reg_def)
  from False have e: "elems ?h ?s = ?fs" by (simp add: elems_def)
  from l have lf: "length ?fs = ?n" by simp
  from False assms(1,3,5) p
  have c1: "c1 = c\<lparr>mem := (mem c)\<lparr>arrays := ?h @ [?fs]\<rparr>,
      snap := \<lparr>ptr = length ?h, len = ?n, cap = ?n\<rparr>,
      chan := [], chan_cap := ?n, closed := False, wg := int ?n, pc := Launching ?n\<rparr>"
    by (simp add: Run_def make_slice_def copy_slice_def Let_def nth_append)
  from p r lf have s: "snapshot_is ?fs r c1"
    by (auto simp: snapshot_is_def c1)
  show ?thesis
    unfolding e inv_hook_def using s assms(4) lf
    by (simp add: c1 dispatched_def observed_Nil running_Nil)
qed

lemma hook_reach:
  assumes "pc c = Start" and "tasks c = []" and "wf_reg (mem c) r" and "ctx_err c = None"
    and "fs = elems (arrays (mem c)) (regs (mem c) ! r)"
    and "exec (hook_step r) (Coord # as) c = Some c'"
  shows "inv_hook fs r c'"
proof -
  from exec_Cons_Some [OF assms(6)] obtain c1 where
    st: "Run r c = Some c1" and e1: "exec (hook_step r) as c1 = Some c'" by auto
  from Run_Start [OF assms(1,3,4,2) st] assms(5) have "inv_hook fs r c1" by simp
  from this e1 show ?thesis by (rule inv_hook_exec)
qed

lemma inv_hook_Done_recorded:
  assumes "inv_hook fs r c" and "pc c = Done res"
  shows "res = Join (map Some (failures res))
       \<and> mset (failures res) = mset (concat (map recorded (tasks c)))
       \<and> map fst (tasks c) = rev fs"
proof -
  from assms obtain es where "res = Join (map Some es)"
    and "mset es = mset (concat (map recorded (tasks c)))" and "dispatched fs 0 c"
    by (auto simp: inv_hook_def)
  then show ?thesis by (simp add: failures_Join dispatched_def)
qed


lemma Run_snapshot_private:
  assumes "pc c = Start" and "tasks c = []" and "wf_reg (mem c) r" and "ctx_err c = None"
    and "fs = elems (arrays (mem c)) (regs (mem c) ! r)"
    and "exec (hook_step r) (Coord # as) c = Some c'"
  shows "elems (arrays (mem c')) (snap c') = fs"
proof -
  from hook_reach [OF assms] have "snapshot_is fs r c'" by (simp add: inv_hook_def)
  then show ?thesis by (auto simp: snapshot_is_def elems_def)
qed


subsection \<open>The invariant of \<^verbatim>\<open>Shutdown\<close>\<close>

lemma inv_shutdown_launch:
  assumes "inv_shutdown fs s c" and "Shutdown s c = Some c'" and pc: "pc c = Launching (Suc i)"
  shows "inv_shutdown fs s c'"
proof -
  from assms(1) pc have l: "live_is fs s c" and i: "i < length fs"
    and t: "map fst (tasks c) = rev (drop (Suc i) fs)"
    and ob: "observed (ctx_err c) (tasks c)"
    and cl: "\<not> closer c" "\<not> closed c"
    and m: "mset (chan c) = mset (map Some (concat (map recorded (tasks c))))"
    by (simp_all add: inv_shutdown_def dispatched_def)
  from pc assms(2) at_live [OF l i]
  have c': "c' = c\<lparr>wg := wg c + 1, tasks := tasks c @ [(fs ! i, None)], pc := Launching i\<rparr>"
    by (simp add: Shutdown_Launching_Suc)
  have d: "rev (drop i fs) = rev (drop (Suc i) fs) @ [fs ! i]"
    using i by (simp add: Cons_nth_drop_Suc [symmetric])
  have r': "running (tasks c') = Suc (running (tasks c))"
    by (simp add: c' running_def)
  have l': "live_is fs s c'"
    using l r' by (simp add: live_is_def c')
  have d': "dispatched fs i c'"
    using i t ob by (simp add: dispatched_def c' d observed_append_running)
  have rc: "concat (map recorded (tasks c')) = concat (map recorded (tasks c))"
    by (simp add: c')
  show ?thesis
    unfolding inv_shutdown_def using l' d' cl m rc by (simp add: c')
qed

lemma inv_shutdown_select:
  assumes "inv_shutdown fs s c" and "Shutdown s c = Some c'" and pc: "pc c = Launching 0"
  shows "inv_shutdown fs s c'"
proof -
  from pc assms(2) have c': "c' = c\<lparr>closer := True, pc := Selecting []\<rparr>"
    by (simp add: Shutdown_Launching_0)
  from assms(1) pc show ?thesis
    by (simp add: inv_shutdown_def c' live_is_def dispatched_def)
qed

lemma inv_shutdown_Shutdown:
  assumes "inv_shutdown fs s c" and "Shutdown s c = Some c'"
  shows "inv_shutdown fs s c'"
proof (cases "pc c")
  case (Launching k)
  with assms show ?thesis
    by (cases k) (auto intro: inv_shutdown_select inv_shutdown_launch)
next
  case Start
  with assms(1) show ?thesis by (simp add: inv_shutdown_def)
next
  case (Selecting errs)
  with assms(2) Shutdown_other [of c errs] show ?thesis by simp
next
  case (Done res)
  with assms(2) Shutdown_other [of c _ res] show ?thesis by simp
next
  case (Crashed v)
  with assms(2) Shutdown_other [of c _ _ v] show ?thesis by simp
qed

lemma inv_shutdown_recv:
  assumes "inv_shutdown fs s c" and "Shutdown_recv s c = Some c'"
  shows "inv_shutdown fs s c'"
proof -
  from assms(2) obtain errs where pc: "pc c = Selecting errs"
    by (cases "pc c") (simp_all add: Shutdown_recv_def)
  from assms(1) pc have l: "live_is fs s c" and d: "dispatched fs 0 c" and cl: "closer c"
    and cr: "closed c \<longrightarrow> running (tasks c) = 0"
    and m: "mset (chan c) + mset (map Some errs)
            = mset (map Some (concat (map recorded (tasks c))))"
    by (simp_all add: inv_shutdown_def)
  show ?thesis
  proof (cases "chan c")
    case Nil
    with assms(2) pc have closed: "closed c"
      and c': "c' = c\<lparr>mem := (mem c)\<lparr>regs := (regs (mem c))[s := nil_slice]\<rparr>,
                      locked := False, pc := Done (Join (map Some errs))\<rparr>"
      by (auto simp: Shutdown_recv_def split: if_splits)
    from m Nil have "mset (map Some errs) = mset (map Some (concat (map recorded (tasks c))))"
      by simp
    then have "mset errs = mset (concat (map recorded (tasks c)))"
      by (rule mset_map_Some_eq)
    then have "\<exists>es. Join (map Some errs) = Join (map Some es)
        \<and> mset es = mset (concat (map recorded (tasks c)))" by blast
    with d cr closed show ?thesis
      by (simp add: inv_shutdown_def c' dispatched_def)
  next
    case (Cons v vs)
    from m Cons head_is_Some [of v vs "mset (map Some errs)"] obtain e where v: "v = Some e"
      by auto
    from assms(2) pc Cons v
    have c': "c' = c\<lparr>chan := vs, pc := Selecting (errs @ [e])\<rparr>"
      by (simp add: Shutdown_recv_def)
    from l have l': "live_is fs s c'" by (simp add: live_is_def c')
    from d have d': "dispatched fs 0 c'" by (simp add: dispatched_def c')
    from m Cons v have m': "mset (chan c') + mset (map Some (errs @ [e]))
            = mset (map Some (concat (map recorded (tasks c'))))"
      by (simp add: c')
    show ?thesis
      unfolding inv_shutdown_def using l' d' cl cr m' by (simp add: c')
  qed
qed

lemma inv_shutdown_ctx_done:
  assumes "inv_shutdown fs s c" and "Shutdown_ctx_done c = Some c'"
  shows "inv_shutdown fs s c'"
proof -
  from assms(2) obtain errs where pc: "pc c = Selecting errs"
    by (cases "pc c") (simp_all add: Shutdown_ctx_done_def)
  from assms(2) pc obtain e where e: "ctx_err c = Some e"
    and c': "c' = c\<lparr>locked := False, pc := Done (Join (map Some errs @ [Some e]))\<rparr>"
    by (cases "ctx_err c") (simp_all add: Shutdown_ctx_done_def)
  from assms(1) pc e show ?thesis
    by (simp add: inv_shutdown_def c' dispatched_def)
qed

lemma inv_shutdown_closer:
  assumes "inv_shutdown fs s c" and "Shutdown_closer c = Some c'"
  shows "inv_shutdown fs s c'"
proof -
  from assms(2) have cl: "closer c" and w: "wg c = 0" and c': "c' = c\<lparr>closed := True\<rparr>"
    by (auto simp: Shutdown_closer_def split: if_splits)
  from assms(1) cl w show ?thesis
    by (cases "pc c") (simp_all add: inv_shutdown_def c' dispatched_def live_is_def)
qed

lemma inv_shutdown_cancel:
  assumes "inv_shutdown fs s c" and "cancel e c = Some c'"
  shows "inv_shutdown fs s c'"
proof -
  from assms(2) have n: "ctx_err c = None" and c': "c' = c\<lparr>ctx_err := Some e\<rparr>"
    by (auto simp: cancel_def split: if_splits)
  have o: "observed (ctx_err c) (tasks c) \<Longrightarrow> observed (ctx_err c') (tasks c')"
    using observed_cancel [of "tasks c" e] by (simp add: n c')
  from assms(1) o show ?thesis
    by (cases "pc c") (auto simp: inv_shutdown_def dispatched_def c' live_is_def)
qed

lemma inv_shutdown_mem:
  assumes "inv_shutdown fs s c" and "\<not> locked c"
  shows "inv_shutdown fs s (c\<lparr>mem := w\<rparr>)"
  using assms by (cases "pc c") (simp_all add: inv_shutdown_def dispatched_def live_is_def)

lemma inv_shutdown_task:
  assumes "inv_shutdown fs s c" and "Shutdown_task j c = Some c'"
  shows "inv_shutdown fs s c'"
proof -
  from Shutdown_task_Some [OF assms(2)] obtain f out where
    j: "j < length (tasks c)" and t: "tasks c ! j = (f, None)" and out: "out = f (ctx_err c)"
    and nb: "out \<noteq> Block"
    and alt: "(\<exists>v. out = Panic v \<and> c' = c\<lparr>pc := Crashed (panic_text v)\<rparr>) \<or>
               (\<exists>e. out = Return e) \<and>
               c' = c\<lparr>chan := chan c @ map Some (recorded (f, Some out)),
                       tasks := (tasks c)[j := (f, Some out)], wg := wg c - 1\<rparr>"
    by blast
  from alt show ?thesis
  proof
    assume "\<exists>v. out = Panic v \<and> c' = c\<lparr>pc := Crashed (panic_text v)\<rparr>"
    then obtain v where c': "c' = c\<lparr>pc := Crashed v\<rparr>" by blast
    from assms(1) have "\<exists>k. dispatched fs k c"
      by (cases "pc c") (auto simp: inv_shutdown_def)
    then show ?thesis by (simp add: inv_shutdown_def c' dispatched_def)
  next
    assume "(\<exists>e. out = Return e) \<and>
               c' = c\<lparr>chan := chan c @ map Some (recorded (f, Some out)),
                       tasks := (tasks c)[j := (f, Some out)], wg := wg c - 1\<rparr>"
    then have c': "c' = c\<lparr>chan := chan c @ map Some (recorded (f, Some out)),
                       tasks := (tasks c)[j := (f, Some out)], wg := wg c - 1\<rparr>" by simp
    from t have sn: "snd (tasks c ! j) = None" and f: "f = fst (tasks c ! j)" by simp_all
    have run: "running (tasks c) \<noteq> 0"
      using j sn by (auto simp: running_zero)
    have r': "int (running (tasks c')) = int (running (tasks c)) - 1"
      using running_finish [OF j sn] by (simp add: c')
    have rc: "mset (concat (map recorded (tasks c')))
              = mset (concat (map recorded (tasks c))) + mset (recorded (f, Some out))"
      using recorded_finish [OF j sn, of "(f, Some out)"] by (simp add: c')
    have dd: "\<And>k. dispatched fs k c \<Longrightarrow> dispatched fs k c'"
      using observed_finish [of "ctx_err c" "tasks c" j out] j out nb
      by (simp add: dispatched_def c' f map_fst_finish)
    have ll: "live_is fs s c \<Longrightarrow> live_is fs s c'"
      using r' by (simp add: live_is_def c')
    show ?thesis
    proof (cases "pc c")
      case (Launching k)
      with assms(1) have "live_is fs s c'" "dispatched fs k c'" "\<not> closer c'" "\<not> closed c'"
        "mset (chan c') = mset (map Some (concat (map recorded (tasks c'))))"
        using dd ll rc by (simp_all add: inv_shutdown_def) (simp_all add: c')
      with Launching show ?thesis by (simp add: inv_shutdown_def c')
    next
      case (Selecting errs)
      with assms(1) run have nc: "\<not> closed c" by (auto simp: inv_shutdown_def)
      from Selecting assms(1) have "live_is fs s c'" "dispatched fs 0 c'" "closer c'"
        "mset (chan c') + mset (map Some errs)
           = mset (map Some (concat (map recorded (tasks c'))))"
        using dd ll rc by (simp_all add: inv_shutdown_def) (simp_all add: c')
      with Selecting nc show ?thesis by (simp add: inv_shutdown_def c')
    next
      case (Done res)
      with assms(1) run have "ctx_err c \<noteq> None" "dispatched fs 0 c'"
        using dd by (auto simp: inv_shutdown_def)
      with Done show ?thesis by (simp add: inv_shutdown_def c')
    next
      case Start
      with assms(1) show ?thesis by (simp add: inv_shutdown_def)
    next
      case (Crashed v)
      with assms(1) dd have "\<exists>k. dispatched fs k c'" by (auto simp: inv_shutdown_def)
      with Crashed show ?thesis by (simp add: inv_shutdown_def c')
    qed
  qed
qed

lemma inv_shutdown_step:
  assumes "inv_shutdown fs s c" and "shutdown_step s a c = Some c'"
  shows "inv_shutdown fs s c'"
proof (cases a)
  case Coord
  with assms show ?thesis by (auto intro: inv_shutdown_Shutdown)
next
  case Recv
  with assms show ?thesis by (auto intro: inv_shutdown_recv)
next
  case CtxDone
  with assms show ?thesis by (auto intro: inv_shutdown_ctx_done)
next
  case (Task j)
  with assms show ?thesis by (auto intro: inv_shutdown_task)
next
  case Closer
  with assms show ?thesis by (auto intro: inv_shutdown_closer)
next
  case (Cancel e)
  with assms show ?thesis by (auto intro: inv_shutdown_cancel)
next
  case (DoAdd sp gs)
  with assms show ?thesis by (auto split: if_splits intro: inv_shutdown_mem)
next
  case DoClear
  with assms show ?thesis by (auto split: if_splits intro: inv_shutdown_mem)
qed

lemma inv_shutdown_exec:
  "inv_shutdown fs s c \<Longrightarrow> exec (shutdown_step s) as c = Some c' \<Longrightarrow> inv_shutdown fs s c'"
proof (induction as arbitrary: c)
  case Nil
  then show ?case by simp
next
  case (Cons a as)
  then show ?case
    by (auto split: if_splits option.splits dest: inv_shutdown_step)
qed

lemma Shutdown_Start:
  assumes "pc c = Start" and "wf_reg (mem c) s" and "tasks c = []"
    and "Shutdown s c = Some c1"
  shows "inv_shutdown (elems (arrays (mem c)) (regs (mem c) ! s)) s c1"
proof (cases "len (regs (mem c) ! s) = 0")
  case True
  with assms(1,4) have c1: "c1 = c\<lparr>pc := Done None\<rparr>"
    by (simp add: Shutdown_def split: if_splits)
  from True have e: "elems (arrays (mem c)) (regs (mem c) ! s) = []"
    by (simp add: elems_def)
  show ?thesis
    unfolding e inv_shutdown_def using assms(3)
    by (simp add: c1 dispatched_def observed_Nil running_Nil Join_def)
next
  case False
  let ?h = "arrays (mem c)" and ?s = "regs (mem c) ! s"
  let ?n = "len ?s"
  let ?fs = "take ?n (?h ! ptr ?s)"
  from False assms(2) have l: "?n \<le> length (?h ! ptr ?s)"
    by (auto simp: wf_reg_def)
  from False have e: "elems ?h ?s = ?fs" by (simp add: elems_def)
  from l have lf: "length ?fs = ?n" by simp
  from False assms(1,4)
  have c1: "c1 = c\<lparr>locked := True, chan := [], chan_cap := ?n,
                        closed := False, closer := False, wg := 0, pc := Launching ?n\<rparr>"
    by (simp add: Shutdown_def split: if_splits)
  from False lf have fs: "?fs \<noteq> []" by auto
  show ?thesis
    unfolding e inv_shutdown_def using assms(3) lf fs
    by (simp add: c1 dispatched_def observed_Nil running_Nil live_is_def)
qed

lemma shutdown_reach:
  assumes "pc c = Start" and "tasks c = []" and "wf_reg (mem c) s"
    and "fs = elems (arrays (mem c)) (regs (mem c) ! s)"
    and "exec (shutdown_step s) (Coord # as) c = Some c'"
  shows "inv_shutdown fs s c'"
proof -
  from exec_Cons_Some [OF assms(5)] obtain c1 where
    st: "Shutdown s c = Some c1" and e1: "exec (shutdown_step s) as c1 = Some c'" by auto
  from Shutdown_Start [OF assms(1,3,2) st] assms(4) have "inv_shutdown fs s c1" by simp
  from this e1 show ?thesis by (rule inv_shutdown_exec)
qed


subsection \<open>Runs that come to their end\<close>

text \<open>
  The launch loop is never blocked; goroutines whose callbacks come back can all finish,
  for the channel always has room; then the coordinator can return.
\<close>

lemma hook_launch_all_ctx:
  assumes "inv_hook fs r c" and "pc c = Launching k"
  shows "\<exists>c'. exec (hook_step r) (replicate k Coord) c = Some c' \<and> pc c' = Launching 0
            \<and> ctx_err c' = ctx_err c"
  using assms
proof (induction k arbitrary: c)
  case 0
  then show ?case by simp
next
  case (Suc k)
  from Suc.prems have i: "k < length fs" and s: "snapshot_is fs r c"
    by (simp_all add: inv_hook_def dispatched_def)
  from Suc.prems(2) at_snapshot [OF s i]
  have st: "Run r c = Some (c\<lparr>tasks := tasks c @ [(fs ! k, None)], pc := Launching k\<rparr>)"
    by (simp add: Run_Launching_Suc)
  let ?c1 = "c\<lparr>tasks := tasks c @ [(fs ! k, None)], pc := Launching k\<rparr>"
  from Suc.prems(1) st have "inv_hook fs r ?c1" by (rule inv_hook_Run)
  from Suc.IH [OF this] obtain c' where
    "exec (hook_step r) (replicate k Coord) ?c1 = Some c'" and "pc c' = Launching 0"
    and "ctx_err c' = ctx_err ?c1" by auto
  with st Suc.prems(2) show ?case by simp
qed




lemma shutdown_launch_all_ctx:
  assumes "inv_shutdown fs s c" and "pc c = Launching k"
  shows "\<exists>c'. exec (shutdown_step s) (replicate k Coord) c = Some c' \<and> pc c' = Launching 0
            \<and> ctx_err c' = ctx_err c"
  using assms
proof (induction k arbitrary: c)
  case 0
  then show ?case by simp
next
  case (Suc k)
  from Suc.prems have i: "k < length fs" and l: "live_is fs s c"
    by (simp_all add: inv_shutdown_def dispatched_def)
  from Suc.prems(2) at_live [OF l i]
  have st: "Shutdown s c
      = Some (c\<lparr>wg := wg c + 1, tasks := tasks c @ [(fs ! k, None)], pc := Launching k\<rparr>)"
    by (simp add: Shutdown_Launching_Suc)
  let ?c1 = "c\<lparr>wg := wg c + 1, tasks := tasks c @ [(fs ! k, None)], pc := Launching k\<rparr>"
  from Suc.prems(1) st have "inv_shutdown fs s ?c1" by (rule inv_shutdown_Shutdown)
  from Suc.IH [OF this] obtain c' where
    "exec (shutdown_step s) (replicate k Coord) ?c1 = Some c'" and "pc c' = Launching 0"
    and "ctx_err c' = ctx_err ?c1" by auto
  with st Suc.prems(2) show ?case by simp
qed

lemma shutdown_launch_running:
  assumes "inv_shutdown fs s c" and "pc c = Launching k"
  shows "\<exists>c'. exec (shutdown_step s) (replicate k Coord) c = Some c' \<and> pc c' = Launching 0
            \<and> ctx_err c' = ctx_err c \<and> running (tasks c') = running (tasks c) + k"
  using assms
proof (induction k arbitrary: c)
  case 0
  then show ?case by simp
next
  case (Suc k)
  from Suc.prems have i: "k < length fs" and l: "live_is fs s c"
    by (simp_all add: inv_shutdown_def dispatched_def)
  from Suc.prems(2) at_live [OF l i]
  have st: "Shutdown s c
      = Some (c\<lparr>wg := wg c + 1, tasks := tasks c @ [(fs ! k, None)], pc := Launching k\<rparr>)"
    by (simp add: Shutdown_Launching_Suc)
  let ?c1 = "c\<lparr>wg := wg c + 1, tasks := tasks c @ [(fs ! k, None)], pc := Launching k\<rparr>"
  from Suc.prems(1) st have "inv_shutdown fs s ?c1" by (rule inv_shutdown_Shutdown)
  from Suc.IH [OF this] obtain c' where
    "exec (shutdown_step s) (replicate k Coord) ?c1 = Some c'" and "pc c' = Launching 0"
    and "ctx_err c' = ctx_err ?c1" and "running (tasks c') = running (tasks ?c1) + k" by auto
  with st Suc.prems(2) show ?case by (simp add: running_def)
qed





lemma shutdown_cancelled_returns:
  assumes "pc c = Start" and "tasks c = []" and "wf_reg (mem c) s" and "ctx_err c = None"
    and "fs = elems (arrays (mem c)) (regs (mem c) ! s)" and "fs \<noteq> []"
    and "e = Canceled \<or> e = DeadlineExceeded" and "\<not> locked c"
  shows "\<exists>c'. exec (shutdown_step s)
                 (replicate (Suc (length fs)) Coord @ [Coord, Cancel e, CtxDone]) c = Some c'
           \<and> pc c' = Done (Some (JoinError [e])) \<and> running (tasks c') = length fs"
proof -
  have n: "length fs = len (regs (mem c) ! s)"
    using assms(3,5) by (simp add: wf_reg_elems)
  from Shutdown_Start_step [OF assms(1,8), of s] n assms(6) obtain c1 where
    st: "Shutdown s c = Some c1" and p1: "pc c1 = Launching (length fs)" by auto
  from Shutdown_Start [OF assms(1,3,2) st] assms(5) have i1: "inv_shutdown fs s c1" by simp
  from st assms(4) have x1: "ctx_err c1 = None" by (simp add: Shutdown_ctx_err)
  from st assms(1,2) have t1: "tasks c1 = []"
    by (auto simp: Shutdown_def split: if_splits)
  from shutdown_launch_running [OF i1 p1] x1 t1 obtain c2 where
    e2: "exec (shutdown_step s) (replicate (length fs) Coord) c1 = Some c2"
    and p2: "pc c2 = Launching 0" and x2: "ctx_err c2 = None"
    and r2: "running (tasks c2) = length fs" by (auto simp: running_Nil)
  let ?c5 = "c2\<lparr>closer := True, ctx_err := Some e, locked := False,
                 pc := Done (Some (JoinError [e]))\<rparr>"
  from p2 x2 assms(7) have e5: "exec (shutdown_step s) [Coord, Cancel e, CtxDone] c2 = Some ?c5"
    by (auto simp: Shutdown_Launching_0 cancel_def Shutdown_ctx_done_def Join_def)
  from st assms(1) e2 have "exec (shutdown_step s) (replicate (Suc (length fs)) Coord) c = Some c2"
    by simp
  from exec_append_Some [OF this e5] r2 show ?thesis by auto
qed


subsection \<open>Results and launch order\<close>



lemma launch_orders:
  assumes "pc c = Start" and "tasks c = []" and "wf_reg (mem c) r"
    and "fs = elems (arrays (mem c)) (regs (mem c) ! r)"
  shows "ctx_err c = None \<longrightarrow>
           (\<exists>c'. exec (hook_step r) (replicate (Suc (length fs)) Coord) c = Some c'
                \<and> map fst (tasks c') = rev fs)
         \<and> (\<forall>as c'. exec (hook_step r) (Coord # as) c = Some c' \<longrightarrow>
               (case pc c' of Launching k \<Rightarrow> map fst (tasks c') = rev (drop k fs)
                | Done res \<Rightarrow> map fst (tasks c') = rev fs | _ \<Rightarrow> False))"
    and "\<not> locked c \<longrightarrow>
           (\<exists>c'. exec (shutdown_step r) (replicate (Suc (length fs)) Coord) c = Some c'
                \<and> map fst (tasks c') = rev fs)"
    and "\<forall>as c'. exec (shutdown_step r) (Coord # as) c = Some c' \<longrightarrow>
               (case pc c' of Start \<Rightarrow> False
                | Launching k \<Rightarrow> map fst (tasks c') = rev (drop k fs)
                | Crashed v \<Rightarrow> (\<exists>k. map fst (tasks c') = rev (drop k fs))
                | _ \<Rightarrow> map fst (tasks c') = rev fs)"
proof -
  have n: "length fs = len (regs (mem c) ! r)"
    using assms(3,4) by (simp add: wf_reg_elems)
  show "ctx_err c = None \<longrightarrow>
           (\<exists>c'. exec (hook_step r) (replicate (Suc (length fs)) Coord) c = Some c'
                \<and> map fst (tasks c') = rev fs)
         \<and> (\<forall>as c'. exec (hook_step r) (Coord # as) c = Some c' \<longrightarrow>
               (case pc c' of Launching k \<Rightarrow> map fst (tasks c') = rev (drop k fs)
                | Done res \<Rightarrow> map fst (tasks c') = rev fs | _ \<Rightarrow> False))"
  proof (intro impI conjI allI)
    assume ctx: "ctx_err c = None"
    from Run_Start_step [OF assms(1) ctx, of r] obtain c1 where
      st: "Run r c = Some c1"
      and alt: "pc c1 = Done None \<and> len (regs (mem c) ! r) = 0
                \<or> pc c1 = Launching (len (regs (mem c) ! r))" by blast
    from Run_Start [OF assms(1,3) ctx assms(2) st] assms(4)
    have inv: "inv_hook fs r c1" by simp
    from alt show "\<exists>c'. exec (hook_step r) (replicate (Suc (length fs)) Coord) c = Some c'
                \<and> map fst (tasks c') = rev fs"
    proof
      assume a: "pc c1 = Done None \<and> len (regs (mem c) ! r) = 0"
      with n have "fs = []" by simp
      with inv a st assms(1) show ?thesis
        by (simp add: inv_hook_def dispatched_def)
    next
      assume a: "pc c1 = Launching (len (regs (mem c) ! r))"
      with n have a': "pc c1 = Launching (length fs)" by simp
      from hook_launch_all_ctx [OF inv a'] obtain c' where
        e: "exec (hook_step r) (replicate (length fs) Coord) c1 = Some c'"
        and p: "pc c' = Launching 0" by blast
      from inv e have "inv_hook fs r c'" by (rule inv_hook_exec)
      with p have "map fst (tasks c') = rev fs" by (simp add: inv_hook_def dispatched_def)
      with e st assms(1) show ?thesis by simp
    qed
  next
    fix as c'
    assume ctx: "ctx_err c = None" and e: "exec (hook_step r) (Coord # as) c = Some c'"
    from exec_Cons_Some [OF e] obtain c1 where
      st: "Run r c = Some c1" and e1: "exec (hook_step r) as c1 = Some c'" by auto
    from Run_Start [OF assms(1,3) ctx assms(2) st] assms(4)
    have "inv_hook fs r c1" by simp
    from this e1 have "inv_hook fs r c'" by (rule inv_hook_exec)
    then show "case pc c' of Launching k \<Rightarrow> map fst (tasks c') = rev (drop k fs)
                | Done res \<Rightarrow> map fst (tasks c') = rev fs | _ \<Rightarrow> False"
      by (cases "pc c'") (simp_all add: inv_hook_def dispatched_def)
  qed
  show "\<not> locked c \<longrightarrow>
           (\<exists>c'. exec (shutdown_step r) (replicate (Suc (length fs)) Coord) c = Some c'
                \<and> map fst (tasks c') = rev fs)"
  proof
    assume nl: "\<not> locked c"
    from Shutdown_Start_step [OF assms(1) nl, of r] obtain c1 where
      st: "Shutdown r c = Some c1"
      and alt: "pc c1 = Done None \<and> len (regs (mem c) ! r) = 0
                \<or> pc c1 = Launching (len (regs (mem c) ! r))" by blast
    from Shutdown_Start [OF assms(1,3,2) st] assms(4)
    have inv: "inv_shutdown fs r c1" by simp
    from alt show "\<exists>c'. exec (shutdown_step r) (replicate (Suc (length fs)) Coord) c = Some c'
                \<and> map fst (tasks c') = rev fs"
    proof
      assume a: "pc c1 = Done None \<and> len (regs (mem c) ! r) = 0"
      with n have "fs = []" by simp
      with inv a st assms(1) show ?thesis
        by (simp add: inv_shutdown_def dispatched_def)
    next
      assume a: "pc c1 = Launching (len (regs (mem c) ! r))"
      with n have a': "pc c1 = Launching (length fs)" by simp
      from shutdown_launch_all_ctx [OF inv a'] obtain c' where
        e: "exec (shutdown_step r) (replicate (length fs) Coord) c1 = Some c'"
        and p: "pc c' = Launching 0" by blast
      from inv e have "inv_shutdown fs r c'" by (rule inv_shutdown_exec)
      with p have "map fst (tasks c') = rev fs" by (simp add: inv_shutdown_def dispatched_def)
      with e st assms(1) show ?thesis by simp
    qed
  qed
  show "\<forall>as c'. exec (shutdown_step r) (Coord # as) c = Some c' \<longrightarrow>
               (case pc c' of Start \<Rightarrow> False
                | Launching k \<Rightarrow> map fst (tasks c') = rev (drop k fs)
                | Crashed v \<Rightarrow> (\<exists>k. map fst (tasks c') = rev (drop k fs))
                | _ \<Rightarrow> map fst (tasks c') = rev fs)"
  proof (intro allI impI)
    fix as c'
    assume e: "exec (shutdown_step r) (Coord # as) c = Some c'"
    from exec_Cons_Some [OF e] obtain c1 where
      st: "Shutdown r c = Some c1" and e1: "exec (shutdown_step r) as c1 = Some c'" by auto
    from Shutdown_Start [OF assms(1,3,2) st] assms(4)
    have "inv_shutdown fs r c1" by simp
    from this e1 have "inv_shutdown fs r c'" by (rule inv_shutdown_exec)
    then show "case pc c' of Start \<Rightarrow> False
                | Launching k \<Rightarrow> map fst (tasks c') = rev (drop k fs)
                | Crashed v \<Rightarrow> (\<exists>k. map fst (tasks c') = rev (drop k fs))
                | _ \<Rightarrow> map fst (tasks c') = rev fs"
      by (cases "pc c'") (auto simp: inv_shutdown_def dispatched_def)
  qed
qed


subsection \<open>After an early return\<close>

lemma hook_task_Nil: "tasks c = [] \<Longrightarrow> hook_task j c = None"
  by (simp add: hook_task_def)

lemma Shutdown_task_Nil: "tasks c = [] \<Longrightarrow> Shutdown_task j c = None"
  by (simp add: Shutdown_task_def)

lemma returned_stays_hook:
  assumes "pc c = Done res" and "tasks c = []" and "exec (hook_step r) as c = Some c'"
  shows "pc c' = Done res \<and> tasks c' = []"
  using assms
proof (induction as arbitrary: c)
  case Nil
  then show ?case by simp
next
  case (Cons a as)
  from exec_Cons_Some [OF Cons.prems(3)] obtain c1 where
    st: "hook_step r a c = Some c1" and e: "exec (hook_step r) as c1 = Some c'" by auto
  from st Cons.prems(1,2) have "pc c1 = Done res \<and> tasks c1 = []"
    by (cases a) (auto simp: Run_Done hook_task_Nil cancel_def split: if_splits)
  with Cons.IH e show ?case by blast
qed

lemma Run2_Done: "pc c = Done res \<Longrightarrow> Run2 r c = None"
  by (simp add: Run2_def)

lemma returned_stays_hook2:
  assumes "pc c = Done res" and "tasks c = []" and "exec (hook2_step r) as c = Some c'"
  shows "pc c' = Done res \<and> tasks c' = []"
  using assms
proof (induction as arbitrary: c)
  case Nil
  then show ?case by simp
next
  case (Cons a as)
  from exec_Cons_Some [OF Cons.prems(3)] obtain c1 where
    st: "hook2_step r a c = Some c1" and e: "exec (hook2_step r) as c1 = Some c'" by auto
  from st Cons.prems(1,2) have "pc c1 = Done res \<and> tasks c1 = []"
    by (cases a) (auto simp: Run2_Done hook_task_Nil cancel_def split: if_splits)
  with Cons.IH e show ?case by blast
qed

lemma returned_stays_shutdown:
  assumes "pc c = Done res" and "tasks c = []" and "exec (shutdown_step s) as c = Some c'"
  shows "pc c' = Done res \<and> tasks c' = []"
  using assms
proof (induction as arbitrary: c)
  case Nil
  then show ?case by simp
next
  case (Cons a as)
  from exec_Cons_Some [OF Cons.prems(3)] obtain c1 where
    st: "shutdown_step s a c = Some c1" and e: "exec (shutdown_step s) as c1 = Some c'" by auto
  from st Cons.prems(1,2) Shutdown_other [of c _ res] have "pc c1 = Done res \<and> tasks c1 = []"
    by (cases a)
      (auto simp: Shutdown_task_Nil cancel_def Shutdown_recv_def Shutdown_ctx_done_def
        Shutdown_closer_def split: if_splits)
  with Cons.IH e show ?case by blast
qed

subsection \<open>Lists that stay empty\<close>

lemma hook2_step_cleared:
  assumes "hook2_step r a c = Some c'" and "\<not> is_add a" and "pc c \<noteq> Start"
    and "len (regs (mem c) ! r) = 0"
  shows "len (regs (mem c') ! r) = 0 \<and> pc c' \<noteq> Start"
proof (cases a)
  case Coord
  with assms Run2_mem [of r c c'] show ?thesis by simp
next
  case (Task j)
  with assms hook_task_Some [of j c c'] show ?thesis by auto
next
  case (Cancel e)
  with assms show ?thesis by (auto simp: cancel_def split: if_splits)
qed (use assms in simp_all)

lemma hook2_exec_cleared:
  assumes "\<forall>a \<in> set as. \<not> is_add a" and "pc c \<noteq> Start" and "len (regs (mem c) ! r) = 0"
    and "exec (hook2_step r) as c = Some c'"
  shows "len (regs (mem c') ! r) = 0"
  using assms
proof (induction as arbitrary: c)
  case Nil
  then show ?case by simp
next
  case (Cons a as)
  from exec_Cons_Some [OF Cons.prems(4)] obtain c1 where
    st: "hook2_step r a c = Some c1" and e: "exec (hook2_step r) as c1 = Some c'" by auto
  from Cons.prems(1) have na: "\<not> is_add a" and nas: "\<forall>a \<in> set as. \<not> is_add a" by simp_all
  from hook2_step_cleared [OF st na Cons.prems(2,3)]
  have "len (regs (mem c1) ! r) = 0" and "pc c1 \<noteq> Start" by simp_all
  with Cons.IH [OF nas _ _ e] show ?case by simp
qed

lemma Shutdown_emptied:
  assumes "Shutdown s c = Some c'" and "emptied s c"
  shows "emptied s c'"
proof (cases "pc c")
  case Start
  with assms show ?thesis by (auto simp: Shutdown_def emptied_def split: if_splits)
next
  case (Launching k)
  with assms show ?thesis
    by (cases k)
      (auto simp: Shutdown_Launching_0 Shutdown_Launching_Suc emptied_def split: option.splits)
qed (use assms in \<open>simp_all add: Shutdown_def\<close>)

lemma shutdown_step_emptied:
  assumes "shutdown_step s a c = Some c'" and "\<not> is_add a" and "a \<noteq> CtxDone"
    and "emptied s c"
  shows "emptied s c'"
proof (cases a)
  case Coord
  with assms show ?thesis by (auto intro: Shutdown_emptied)
next
  case Recv
  with assms show ?thesis
    by (auto simp: Shutdown_recv_def emptied_def nil_slice_def
        split: pc.splits list.splits if_splits)
next
  case (Task j)
  with assms Shutdown_task_Some [of j c c'] show ?thesis by (auto simp: emptied_def)
next
  case Closer
  with assms show ?thesis by (auto simp: Shutdown_closer_def emptied_def split: if_splits)
next
  case (Cancel e)
  with assms show ?thesis by (auto simp: cancel_def emptied_def split: if_splits)
next
  case DoClear
  with assms show ?thesis
    by (auto simp: shutdown_Clear_def emptied_def nil_slice_def split: if_splits)
qed (use assms in simp_all)

lemma shutdown_exec_emptied:
  assumes "\<forall>a \<in> set as. \<not> is_add a" and "CtxDone \<notin> set as" and "emptied s c"
    and "exec (shutdown_step s) as c = Some c'"
  shows "emptied s c'"
  using assms
proof (induction as arbitrary: c)
  case Nil
  then show ?case by simp
next
  case (Cons a as)
  from exec_Cons_Some [OF Cons.prems(4)] obtain c1 where
    st: "shutdown_step s a c = Some c1" and e: "exec (shutdown_step s) as c1 = Some c'" by auto
  from Cons.prems(1,2) have na: "\<not> is_add a" "a \<noteq> CtxDone"
    and nas: "\<forall>a \<in> set as. \<not> is_add a" "CtxDone \<notin> set as" by auto
  from shutdown_step_emptied [OF st na Cons.prems(3)] have "emptied s c1" .
  from Cons.IH [OF nas this e] show ?case .
qed


subsection \<open>The sample data, evaluated\<close>

lemma sample_world_eval:
  "sample_world =
     \<lparr>arrays = [[failing ''a'', ok_hook, failing ''b'', nilFunc, nilFunc, nilFunc, nilFunc,
                  nilFunc, nilFunc, nilFunc]],
      regs = [\<lparr>ptr = 0, len = 3, cap = 10\<rparr>], once = False, inst = None\<rparr>"
  by (simp add: sample_world_def New_def Add_def make_slice_def append_slice_def elems_def
      empty_world_def Let_def numeral_eq_Suc)

lemma sample_world_wf: "wf_reg sample_world 0"
  by (simp add: sample_world_eval wf_reg_def)

lemma sample_world_elems:
  "elems (arrays sample_world) (regs sample_world ! 0) = [failing ''a'', ok_hook, failing ''b'']"
  by (simp add: sample_world_eval elems_def numeral_eq_Suc)



lemma single_world_eval:
  "single_world =
     \<lparr>arrays = [[failing ''first'', nilFunc, nilFunc, nilFunc, nilFunc, nilFunc, nilFunc,
                  nilFunc, nilFunc, nilFunc]],
      regs = [\<lparr>ptr = 0, len = 1, cap = 10\<rparr>], once = False, inst = None\<rparr>"
  by (simp add: single_world_def New_def Add_def make_slice_def append_slice_def elems_def
      empty_world_def Let_def numeral_eq_Suc)

lemma stuck_shutdowner_eval:
  "stuck_shutdowner =
     \<lparr>arrays = [[blocking]],
      regs = [\<lparr>ptr = 0, len = 1, cap = 1\<rparr>], once = True, inst = Some 0\<rparr>"
  by (simp add: stuck_shutdowner_def shutdown_New_def shutdown_Add_def append_slice_def
      elems_def nil_slice_def empty_world_def Let_def)

lemma stuck_world_eval:
  "stuck_world =
     \<lparr>arrays = [[blocking, nilFunc, nilFunc, nilFunc, nilFunc, nilFunc, nilFunc,
                  nilFunc, nilFunc, nilFunc]],
      regs = [\<lparr>ptr = 0, len = 1, cap = 10\<rparr>], once = False, inst = None\<rparr>"
  by (simp add: stuck_world_def New_def Add_def make_slice_def append_slice_def elems_def
      empty_world_def Let_def numeral_eq_Suc)


section \<open>Inspection and construction\<close>

text \<open>
  Claim C10.  For every registry and every state of the process, \<^verbatim>\<open>IsEmpty()\<close> is
  true exactly when \<^verbatim>\<open>Len()\<close> is zero.
\<close>

theorem IsEmpty_iff_Len_zero: "IsEmpty r w \<longleftrightarrow> Len r w = 0"
  by (simp add: IsEmpty_def)

text \<open>
  Claim C9, as the code has it.  \<^verbatim>\<open>hook.New()\<close> returns a registry object that did
  not exist before, with \<^verbatim>\<open>Len()\<close> zero, and leaves the length of every existing
  registry alone; two calls in a row return different objects; \<^verbatim>\<open>Add\<close> on one
  registry does not change \<^verbatim>\<open>Len()\<close> of another.  \<^verbatim>\<open>shutdown.New()\<close> creates an empty
  shutdowner on its first call only and hands out that one instance ever after: a second
  call changes nothing and returns the same pointer.
\<close>

theorem New_fresh_shutdown_New_singleton:
  "snd (New w) = length (regs w)
   \<and> length (regs (fst (New w))) = Suc (length (regs w))
   \<and> Len (snd (New w)) (fst (New w)) = 0
   \<and> (\<forall>r < length (regs w). Len r (fst (New w)) = Len r w)
   \<and> snd (New (fst (New w))) \<noteq> snd (New w)
   \<and> (r1 \<noteq> r2 \<longrightarrow> Len r2 (Add spare r1 funcs w) = Len r2 w)
   \<and> shutdown_New (fst (shutdown_New w)) = shutdown_New w
   \<and> (\<not> once w \<longrightarrow> snd (shutdown_New w) = Some (length (regs w))
         \<and> shutdown_Len (length (regs w)) (fst (shutdown_New w)) = 0)"
  by (auto simp: New_def make_slice_def Len_def Add_def shutdown_New_def shutdown_Len_def
      nil_slice_def Let_def nth_append split: prod.splits)

theorem New_fresh_shutdown_New_singleton_witness:
  "(0::nat) < length (regs (fst (New (fst (New empty_world))))) \<and> (0::nat) \<noteq> 1
   \<and> \<not> once (fst (New (fst (New empty_world))))
   \<and> snd (New (fst (New (fst (New empty_world))))) = 2
   \<and> Len 2 (fst (New (fst (New (fst (New empty_world)))))) = 0
   \<and> Len 0 (fst (New (fst (New (fst (New empty_world))))))
       = Len 0 (fst (New (fst (New empty_world))))
   \<and> Len 0 (Add 0 0 [ok_hook] (fst (New (fst (New empty_world))))) = 1
   \<and> Len 1 (Add 0 0 [ok_hook] (fst (New (fst (New empty_world))))) = 0
   \<and> snd (shutdown_New (fst (New (fst (New empty_world))))) = Some 2"
proof -
  let ?w = "fst (New (fst (New empty_world)))"
  have a: "(0::nat) < length (regs ?w)"
    by (simp add: New_def empty_world_def make_slice_def)
  have b: "\<not> once ?w"
    by (simp add: New_def empty_world_def make_slice_def)
  have c: "length (regs ?w) = 2"
    by (simp add: New_def empty_world_def make_slice_def)
  have d: "Len 1 ?w = 0" and e: "Len 0 (Add 0 0 [ok_hook] ?w) = 1"
    by (simp_all add: New_def Add_def Len_def append_slice_def empty_world_def make_slice_def)
  from New_fresh_shutdown_New_singleton [of ?w 0 1 0 "[ok_hook]"] a b c d e
  show ?thesis by auto
qed

text \<open>
  Claim C9 as stated fails for package shutdown: two calls of \<^verbatim>\<open>shutdown.New()\<close>
  return the same pointer; one callback added through it makes \<^verbatim>\<open>Len()\<close> of ``both''
  1, and a third call then returns a registry that is not empty.
\<close>

theorem shutdown_New_shared_counterexample:
  "snd (shutdown_New empty_world) = Some 0
   \<and> snd (shutdown_New (fst (shutdown_New empty_world))) = Some 0
   \<and> shutdown_Len 0 (fst (shutdown_New (fst (shutdown_New empty_world)))) = 0
   \<and> shutdown_Len 0
        (shutdown_Add 0 0 [ok_hook] (fst (shutdown_New (fst (shutdown_New empty_world))))) = 1
   \<and> snd (shutdown_New
        (shutdown_Add 0 0 [ok_hook] (fst (shutdown_New (fst (shutdown_New empty_world))))))
       = Some 0
   \<and> shutdown_Len 0 (fst (shutdown_New
        (shutdown_Add 0 0 [ok_hook] (fst (shutdown_New (fst (shutdown_New empty_world)))))))
       = 1"
  by (simp add: shutdown_New_def empty_world_def shutdown_Len_def shutdown_Add_def
      append_slice_def nil_slice_def elems_def Let_def)

section \<open>The two early returns\<close>

text \<open>
  Claim C7.  When the registry is empty at the moment the run takes its snapshot,
  \<^verbatim>\<open>Run\<close> (either registry of hook.go) and \<^verbatim>\<open>Shutdown\<close> return nil in their first
  step, whatever the context reports (cancelled or not); nothing is launched and nothing
  is sent in that step, and under every schedule that follows the run stays returned with
  nil and no goroutine is ever launched.
\<close>

theorem empty_snapshot_returns_nil:
  assumes "pc c = Start" and "len (regs (mem c) ! r) = 0" and "tasks c = []"
  shows "(\<exists>c'. Run r c = Some c' \<and> pc c' = Done None \<and> tasks c' = [] \<and> chan c' = chan c)
       \<and> (\<forall>as c'. exec (hook_step r) (Coord # as) c = Some c' \<longrightarrow>
             pc c' = Done None \<and> tasks c' = [])
       \<and> (\<exists>c'. Run2 r c = Some c' \<and> pc c' = Done None \<and> tasks c' = [] \<and> chan c' = chan c)
       \<and> (\<forall>as c'. exec (hook2_step r) (Coord # as) c = Some c' \<longrightarrow>
             pc c' = Done None \<and> tasks c' = [])
       \<and> (\<not> locked c \<longrightarrow>
            (\<exists>c'. Shutdown r c = Some c' \<and> pc c' = Done None \<and> tasks c' = []
               \<and> chan c' = chan c))
       \<and> (\<forall>as c'. exec (shutdown_step r) (Coord # as) c = Some c' \<longrightarrow>
             pc c' = Done None \<and> tasks c' = [])"
proof -
  from assms obtain c1 where r1: "Run r c = Some c1" and p1: "pc c1 = Done None"
    and t1: "tasks c1 = []" and h1: "chan c1 = chan c"
    by (simp add: Run_def make_slice_def Let_def)
  from assms obtain c2 where r2: "Run2 r c = Some c2" and p2: "pc c2 = Done None"
    and t2: "tasks c2 = []" and h2: "chan c2 = chan c"
    by (simp add: Run2_def Let_def)
  have s3: "\<forall>as c'. exec (shutdown_step r) (Coord # as) c = Some c' \<longrightarrow>
             pc c' = Done None \<and> tasks c' = []"
  proof (cases "locked c")
    case True
    with assms(1) have "Shutdown r c = None" by (simp add: Shutdown_def)
    then show ?thesis by (auto split: if_splits)
  next
    case False
    with assms have r3: "shutdown_step r Coord c = Some (c\<lparr>pc := Done None\<rparr>)"
      by (simp add: Shutdown_def)
    show ?thesis
    proof (intro allI impI)
      fix as c'
      assume "exec (shutdown_step r) (Coord # as) c = Some c'"
      from exec_Cons_Some [OF this] r3
      have e: "exec (shutdown_step r) as (c\<lparr>pc := Done None\<rparr>) = Some c'" by simp
      have "pc (c\<lparr>pc := Done None\<rparr>) = Done None" and "tasks (c\<lparr>pc := Done None\<rparr>) = []"
        using assms(3) by simp_all
      from returned_stays_shutdown [OF this e] show "pc c' = Done None \<and> tasks c' = []" .
    qed
  qed
  have s1: "\<forall>as c'. exec (hook_step r) (Coord # as) c = Some c' \<longrightarrow>
             pc c' = Done None \<and> tasks c' = []"
  proof (intro allI impI)
    fix as c'
    assume "exec (hook_step r) (Coord # as) c = Some c'"
    from exec_Cons_Some [OF this] r1 have "exec (hook_step r) as c1 = Some c'" by simp
    from returned_stays_hook [OF p1 t1 this] show "pc c' = Done None \<and> tasks c' = []" .
  qed
  have s2: "\<forall>as c'. exec (hook2_step r) (Coord # as) c = Some c' \<longrightarrow>
             pc c' = Done None \<and> tasks c' = []"
  proof (intro allI impI)
    fix as c'
    assume "exec (hook2_step r) (Coord # as) c = Some c'"
    from exec_Cons_Some [OF this] r2 have "exec (hook2_step r) as c2 = Some c'" by simp
    from returned_stays_hook2 [OF p2 t2 this] show "pc c' = Done None \<and> tasks c' = []" .
  qed
  from assms have "\<not> locked c \<longrightarrow>
            (\<exists>c'. Shutdown r c = Some c' \<and> pc c' = Done None \<and> tasks c' = []
               \<and> chan c' = chan c)"
    by (simp add: Shutdown_def)
  with r1 p1 t1 h1 r2 p2 t2 h2 s1 s2 s3 show ?thesis by blast
qed

theorem empty_snapshot_returns_nil_witness:
  "pc (init (fst (New empty_world)) (Some Canceled)) = Start
   \<and> len (regs (mem (init (fst (New empty_world)) (Some Canceled))) ! 0) = 0
   \<and> \<not> locked (init (fst (New empty_world)) (Some Canceled))
   \<and> (\<exists>c'. Run 0 (init (fst (New empty_world)) (Some Canceled)) = Some c' \<and> pc c' = Done None
          \<and> tasks c' = [])
   \<and> (\<exists>c'. Shutdown 0 (init (fst (New empty_world)) (Some Canceled)) = Some c'
          \<and> pc c' = Done None \<and> tasks c' = [])"
proof -
  let ?c = "init (fst (New empty_world)) (Some Canceled)"
  have a: "pc ?c = Start" by (simp add: init_def)
  have b: "len (regs (mem ?c) ! 0) = 0"
    by (simp add: init_def New_def empty_world_def make_slice_def)
  have c: "\<not> locked ?c" by (simp add: init_def)
  have d: "tasks ?c = []" by (simp add: init_def)
  from empty_snapshot_returns_nil [OF a b d] c
  have "(\<exists>c'. Run 0 ?c = Some c' \<and> pc c' = Done None \<and> tasks c' = [])
      \<and> (\<exists>c'. Shutdown 0 ?c = Some c' \<and> pc c' = Done None \<and> tasks c' = [])" by blast
  with a b c show ?thesis by blast
qed

text \<open>
  Claim C6.  In both registries of hook.go: when the registry is not empty at the moment
  of the snapshot and the context already reports an error \<open>e\<close>, \<^verbatim>\<open>Run\<close> returns
  exactly \<open>e\<close> in its first step, and under every schedule that follows the run stays
  returned with \<open>e\<close> and no goroutine is ever launched.
\<close>

theorem cancelled_context_short_circuit:
  assumes "pc c = Start" and "len (regs (mem c) ! r) \<noteq> 0" and "ctx_err c = Some e"
    and "tasks c = []"
  shows "(\<exists>c'. Run r c = Some c' \<and> pc c' = Done (Some e) \<and> tasks c' = [])
       \<and> (\<forall>as c'. exec (hook_step r) (Coord # as) c = Some c' \<longrightarrow>
             pc c' = Done (Some e) \<and> tasks c' = [])
       \<and> (\<exists>c'. Run2 r c = Some c' \<and> pc c' = Done (Some e) \<and> tasks c' = [])
       \<and> (\<forall>as c'. exec (hook2_step r) (Coord # as) c = Some c' \<longrightarrow>
             pc c' = Done (Some e) \<and> tasks c' = [])"
proof -
  from assms obtain c1 where r1: "Run r c = Some c1" and p1: "pc c1 = Done (Some e)"
    and t1: "tasks c1 = []"
    by (simp add: Run_def make_slice_def Let_def)
  from assms obtain c2 where r2: "Run2 r c = Some c2" and p2: "pc c2 = Done (Some e)"
    and t2: "tasks c2 = []"
    by (simp add: Run2_def Let_def)
  have s1: "\<forall>as c'. exec (hook_step r) (Coord # as) c = Some c' \<longrightarrow>
             pc c' = Done (Some e) \<and> tasks c' = []"
  proof (intro allI impI)
    fix as c'
    assume "exec (hook_step r) (Coord # as) c = Some c'"
    from exec_Cons_Some [OF this] r1 have "exec (hook_step r) as c1 = Some c'" by simp
    from returned_stays_hook [OF p1 t1 this] show "pc c' = Done (Some e) \<and> tasks c' = []" .
  qed
  have s2: "\<forall>as c'. exec (hook2_step r) (Coord # as) c = Some c' \<longrightarrow>
             pc c' = Done (Some e) \<and> tasks c' = []"
  proof (intro allI impI)
    fix as c'
    assume "exec (hook2_step r) (Coord # as) c = Some c'"
    from exec_Cons_Some [OF this] r2 have "exec (hook2_step r) as c2 = Some c'" by simp
    from returned_stays_hook2 [OF p2 t2 this] show "pc c' = Done (Some e) \<and> tasks c' = []" .
  qed
  from r1 p1 t1 r2 p2 t2 s1 s2 show ?thesis by blast
qed

theorem cancelled_context_short_circuit_witness:
  "pc (init (Add 0 0 [ok_hook] (fst (New empty_world))) (Some Canceled)) = Start
   \<and> len (regs (mem (init (Add 0 0 [ok_hook] (fst (New empty_world))) (Some Canceled))) ! 0)
       \<noteq> 0
   \<and> ctx_err (init (Add 0 0 [ok_hook] (fst (New empty_world))) (Some Canceled)) = Some Canceled
   \<and> (\<exists>c'. Run 0 (init (Add 0 0 [ok_hook] (fst (New empty_world))) (Some Canceled)) = Some c'
          \<and> pc c' = Done (Some Canceled) \<and> tasks c' = [])
   \<and> (\<exists>c'. Run2 0 (init (Add 0 0 [ok_hook] (fst (New empty_world))) (Some Canceled)) = Some c'
          \<and> pc c' = Done (Some Canceled) \<and> tasks c' = [])"
proof -
  let ?c = "init (Add 0 0 [ok_hook] (fst (New empty_world))) (Some Canceled)"
  have a: "pc ?c = Start" by (simp add: init_def)
  have b: "len (regs (mem ?c) ! 0) \<noteq> 0"
    by (simp add: init_def New_def Add_def append_slice_def empty_world_def make_slice_def)
  have c: "ctx_err ?c = Some Canceled" by (simp add: init_def)
  have d: "tasks ?c = []" by (simp add: init_def)
  from cancelled_context_short_circuit [OF a b c d]
  have "(\<exists>c'. Run 0 ?c = Some c' \<and> pc c' = Done (Some Canceled) \<and> tasks c' = [])
      \<and> (\<exists>c'. Run2 0 ?c = Some c' \<and> pc c' = Done (Some Canceled) \<and> tasks c' = [])" by blast
  with a b c show ?thesis by blast
qed

section \<open>Dispatch and aggregation\<close>

text \<open>
  Claim C8.  The run starts from a configuration \<open>c\<close> in which the coordinator is about
  to take the lock, and \<open>fs\<close> are the callbacks registered at that moment, in
  registration order.  In \<^verbatim>\<open>Run\<close> of hook.go, when the context is not cancelled at
  that moment (so that the run reaches its launch loop), and in \<^verbatim>\<open>Shutdown\<close>:
  the coordinator's first \<open>length fs + 1\<close> steps are never blocked and launch one
  goroutine per callback, in the order \<open>rev fs\<close>; and under every schedule, whatever the
  other goroutines do in between (callbacks finishing in any order, cancellation,
  concurrent \<^verbatim>\<open>Add\<close> and \<^verbatim>\<open>Clear\<close>), the goroutines launched so far are, in launch
  order, the callbacks from the last registered down to the first not yet launched.
\<close>

theorem launch_order_reverse:
  assumes "pc c = Start" and "tasks c = []" and "wf_reg (mem c) r"
    and "fs = elems (arrays (mem c)) (regs (mem c) ! r)"
  shows "(ctx_err c = None \<longrightarrow>
           (\<exists>c'. exec (hook_step r) (replicate (Suc (length fs)) Coord) c = Some c'
                \<and> map fst (tasks c') = rev fs)
         \<and> (\<forall>as c'. exec (hook_step r) (Coord # as) c = Some c' \<longrightarrow>
               (case pc c' of Launching k \<Rightarrow> map fst (tasks c') = rev (drop k fs)
                | Done res \<Rightarrow> map fst (tasks c') = rev fs | _ \<Rightarrow> False)))
       \<and> (\<not> locked c \<longrightarrow>
           (\<exists>c'. exec (shutdown_step r) (replicate (Suc (length fs)) Coord) c = Some c'
                \<and> map fst (tasks c') = rev fs))
       \<and> (\<forall>as c'. exec (shutdown_step r) (Coord # as) c = Some c' \<longrightarrow>
               (case pc c' of Start \<Rightarrow> False
                | Launching k \<Rightarrow> map fst (tasks c') = rev (drop k fs)
                | Crashed v \<Rightarrow> (\<exists>k. map fst (tasks c') = rev (drop k fs))
                | _ \<Rightarrow> map fst (tasks c') = rev fs))"
  using launch_orders [OF assms] by blast

theorem launch_order_reverse_witness:
  "pc (init sample_world None) = Start \<and> tasks (init sample_world None) = []
   \<and> wf_reg (mem (init sample_world None)) 0
   \<and> ctx_err (init sample_world None) = None \<and> \<not> locked (init sample_world None)
   \<and> (\<exists>c'. exec (hook_step 0) [Coord, Coord, Coord, Coord] (init sample_world None) = Some c'
          \<and> map fst (tasks c') = [failing ''b'', ok_hook, failing ''a''])
   \<and> (\<exists>c'. exec (shutdown_step 0) [Coord, Coord, Coord, Coord] (init sample_world None)
            = Some c'
          \<and> map fst (tasks c') = [failing ''b'', ok_hook, failing ''a''])"
proof -
  let ?c = "init sample_world None"
  have a: "pc ?c = Start" and b: "tasks ?c = []" and x: "ctx_err ?c = None"
    and l: "\<not> locked ?c"
    by (simp_all add: init_def)
  have w: "wf_reg (mem ?c) 0" by (simp add: init_def sample_world_wf)
  have e: "[failing ''a'', ok_hook, failing ''b''] = elems (arrays (mem ?c)) (regs (mem ?c) ! 0)"
    by (simp add: init_def sample_world_elems)
  from launch_order_reverse [OF a b w e] a b w x l show ?thesis
    by (simp add: numeral_eq_Suc)
qed



section \<open>Panics\<close>




section \<open>The snapshot\<close>

text \<open>
  Claim C3 at a failing input.  One callback is registered; the run takes its snapshot;
  another goroutine then adds a second callback; the run launches, the goroutine runs,
  the run returns.  The registry that clears itself has taken no copy: \<^verbatim>\<open>funcs\<close>
  shares the backing array with \<^verbatim>\<open>r.funcs[:0]\<close>, the \<^verbatim>\<open>append\<close> of \<^verbatim>\<open>Add\<close> writes
  into cell 0, and the run executes the callback added after the snapshot and never the
  one it was taken of.  Under the same schedule the registry that keeps its hooks, which
  copies, executes the callback registered before the snapshot.
\<close>

theorem Run2_snapshot_aliased:
  "map_option tasks
     (exec (hook2_step 0) [Coord, DoAdd 0 [failing ''late''], Coord, Task 0, Coord]
        (init single_world None))
   = Some [(failing ''late'', Some (Return (Some (ErrorString ''late''))))]
   \<and> map_option pc
     (exec (hook2_step 0) [Coord, DoAdd 0 [failing ''late''], Coord, Task 0, Coord]
        (init single_world None))
   = Some (Done (Some (JoinError [ErrorString ''late''])))
   \<and> map_option tasks
     (exec (hook_step 0) [Coord, DoAdd 0 [failing ''late''], Coord, Task 0, Coord]
        (init single_world None))
   = Some [(failing ''first'', Some (Return (Some (ErrorString ''first''))))]
   \<and> map_option pc
     (exec (hook_step 0) [Coord, DoAdd 0 [failing ''late''], Coord, Task 0, Coord]
        (init single_world None))
   = Some (Done (Some (JoinError [ErrorString ''first''])))"
  by (simp add: single_world_eval init_def Run_def Run2_def hook_task_def make_slice_def
      copy_slice_def at_def send_def finish_def Join_def Let_def failing_def Add_def
      append_slice_def elems_def numeral_eq_Suc)

section \<open>Clearing\<close>

text \<open>
  Claim C4, as the code has it.  In the registry of hook.go that clears itself, the first
  step of \<^verbatim>\<open>Run\<close> empties the list, before anything is launched, and under every
  schedule in which nobody calls \<^verbatim>\<open>Add\<close> the list is empty ever after, whatever the
  run returns.  \<^verbatim>\<open>Shutdown\<close> empties the list only when it returns, and only in the
  branch that finds the channel closed (or when the list was empty to begin with): after
  every \<^verbatim>\<open>Shutdown\<close> that has returned without taking the \<^verbatim>\<open>ctx.Done()\<close> branch, with
  nobody calling \<^verbatim>\<open>Add\<close>, \<^verbatim>\<open>Len()\<close> is zero.
\<close>

theorem clear_before_dispatch:
  assumes "pc c = Start" and "r < length (regs (mem c))"
  shows "(\<exists>c1. Run2 r c = Some c1 \<and> Len r (mem c1) = 0 \<and> tasks c1 = tasks c)
       \<and> (\<forall>as c'. exec (hook2_step r) (Coord # as) c = Some c' \<and> (\<forall>a \<in> set as. \<not> is_add a)
             \<longrightarrow> Len r (mem c') = 0)
       \<and> (\<forall>as c' res. exec (shutdown_step r) (Coord # as) c = Some c'
             \<and> (\<forall>a \<in> set as. \<not> is_add a) \<and> CtxDone \<notin> set as \<and> pc c' = Done res
             \<longrightarrow> shutdown_Len r (mem c') = 0)"
proof (intro conjI allI impI)
  from Run2_Start_clears [OF assms]
  show "\<exists>c1. Run2 r c = Some c1 \<and> Len r (mem c1) = 0 \<and> tasks c1 = tasks c"
    by (auto simp: Len_def)
next
  fix as c'
  assume a: "exec (hook2_step r) (Coord # as) c = Some c' \<and> (\<forall>a \<in> set as. \<not> is_add a)"
  then have na: "\<forall>a \<in> set as. \<not> is_add a" by simp
  from a exec_Cons_Some [of "hook2_step r" Coord as c c'] obtain c1 where
    st: "Run2 r c = Some c1" and e: "exec (hook2_step r) as c1 = Some c'" by auto
  from Run2_Start_clears [OF assms] st have "pc c1 \<noteq> Start" and "len (regs (mem c1) ! r) = 0"
    by auto
  from hook2_exec_cleared [OF na this e] show "Len r (mem c') = 0" by (simp add: Len_def)
next
  fix as c' res
  assume a: "exec (shutdown_step r) (Coord # as) c = Some c'
             \<and> (\<forall>a \<in> set as. \<not> is_add a) \<and> CtxDone \<notin> set as \<and> pc c' = Done res"
  then have e: "exec (shutdown_step r) (Coord # as) c = Some c'"
    and na: "\<forall>a \<in> set (Coord # as). \<not> is_add a" and nc: "CtxDone \<notin> set (Coord # as)"
    and p: "pc c' = Done res" by simp_all
  from assms have "emptied r c" by (simp add: emptied_def)
  from shutdown_exec_emptied [OF na nc this e] p show "shutdown_Len r (mem c') = 0"
    by (simp add: emptied_def shutdown_Len_def)
qed

theorem clear_before_dispatch_witness:
  "pc (init sample_world None) = Start \<and> (0::nat) < length (regs (mem (init sample_world None)))
   \<and> (\<exists>c'. exec (hook2_step 0) [Coord, Coord, Coord, Coord, Task 2, Task 0, Task 1, Coord]
              (init sample_world None) = Some c'
          \<and> pc c' = Done (Some (JoinError [ErrorString ''a'', ErrorString ''b'']))
          \<and> Len 0 (mem c') = 0)
   \<and> (\<exists>c'. exec (shutdown_step 0)
              [Coord, Coord, Coord, Coord, Coord, Task 2, Task 0, Task 1, Closer, Recv, Recv, Recv]
              (init sample_world None) = Some c'
          \<and> pc c' = Done (Some (JoinError [ErrorString ''a'', ErrorString ''b'']))
          \<and> shutdown_Len 0 (mem c') = 0)"
proof -
  let ?c = "init sample_world None"
  let ?res = "Some (JoinError [ErrorString ''a'', ErrorString ''b''])"
  let ?as = "[Coord, Coord, Coord, Task 2, Task 0, Task 1, Coord]"
  let ?bs = "[Coord, Coord, Coord, Coord, Task 2, Task 0, Task 1, Closer, Recv, Recv, Recv]"
  have a: "pc ?c = Start" by (simp add: init_def)
  have b: "(0::nat) < length (regs (mem ?c))" by (simp add: init_def sample_world_eval)
  note rp = clear_before_dispatch [OF a b]
  obtain c1 where x1: "exec (hook2_step 0) (Coord # ?as) ?c = Some c1" and p1: "pc c1 = Done ?res"
    by (simp add: sample_world_eval init_def Run2_def hook_task_def at_def send_def finish_def
        Join_def Let_def failing_def ok_hook_def numeral_eq_Suc)
  have n1: "\<forall>a \<in> set ?as. \<not> is_add a" by simp
  from rp x1 n1 have l1: "Len 0 (mem c1) = 0" by blast
  obtain c2 where x2: "exec (shutdown_step 0) (Coord # ?bs) ?c = Some c2"
    and p2: "pc c2 = Done ?res"
    by (simp add: sample_world_eval init_def Shutdown_def Shutdown_task_def Shutdown_recv_def
        Shutdown_closer_def at_def send_def finish_def Join_def Let_def failing_def ok_hook_def
        numeral_eq_Suc)
  have n2: "\<forall>a \<in> set ?bs. \<not> is_add a" and n3: "CtxDone \<notin> set ?bs" by simp_all
  from rp x2 n2 n3 p2 have l2: "shutdown_Len 0 (mem c2) = 0" by blast
  from a b x1 p1 l1 x2 p2 l2 show ?thesis by blast
qed

text \<open>
  Claim C4 as stated fails for \<^verbatim>\<open>Shutdown\<close>.  With one registered callback that
  blocks: after the launch the list still has its one entry (it is not emptied before the
  callbacks are launched); the context is then cancelled, \<^verbatim>\<open>Shutdown\<close> returns through
  the \<^verbatim>\<open>ctx.Done()\<close> branch, and \<^verbatim>\<open>Len()\<close> is still 1.
\<close>

theorem Shutdown_cancelled_keeps_list_counterexample:
  "map_option (length \<circ> tasks)
     (exec (shutdown_step 0) [Coord, Coord] (init stuck_shutdowner None)) = Some 1
   \<and> map_option (shutdown_Len 0 \<circ> mem)
     (exec (shutdown_step 0) [Coord, Coord] (init stuck_shutdowner None)) = Some 1
   \<and> map_option pc
     (exec (shutdown_step 0) [Coord, Coord, Coord, Cancel Canceled, CtxDone]
        (init stuck_shutdowner None)) = Some (Done (Some (JoinError [Canceled])))
   \<and> map_option (shutdown_Len 0 \<circ> mem)
     (exec (shutdown_step 0) [Coord, Coord, Coord, Cancel Canceled, CtxDone]
        (init stuck_shutdowner None)) = Some 1"
  by (simp add: stuck_shutdowner_eval init_def Shutdown_def Shutdown_ctx_done_def cancel_def
      at_def Join_def shutdown_Len_def)

section \<open>Cancellation in mid-flight\<close>

text \<open>
  Claim C5, as the code has it.  \<open>fs\<close> are the callbacks registered when the run takes
  the lock, and the context is not cancelled then.  \<^verbatim>\<open>Shutdown\<close>: whatever the
  callbacks do (they may all block for ever), the coordinator reaches its \<^verbatim>\<open>select\<close>
  loop by its own steps alone, and when the context is cancelled there, it returns the
  joined error of the cancellation error with every launched callback still running;
  in general, whenever the coordinator is in the \<^verbatim>\<open>select\<close> loop with
  \<^verbatim>\<open>shutdownErrs = errs\<close> and the context reports \<open>err\<close>, the \<^verbatim>\<open>ctx.Done()\<close> branch
  is ready and returns the joined error over \<open>errs @ [err]\<close>, where \<open>errs\<close> are
  failures recorded by callbacks that have finished.  \<^verbatim>\<open>Run\<close> of hook.go has no such
  branch: after the launch loop it is blocked for as long as a launched callback has not
  finished, whatever the context reports, and when it has returned, every callback has
  been launched and has finished, and the result holds their failures only.
\<close>

theorem cancellation_mid_flight:
  assumes "pc c = Start" and "tasks c = []" and "wf_reg (mem c) r" and "ctx_err c = None"
    and "fs = elems (arrays (mem c)) (regs (mem c) ! r)"
  shows "(fs \<noteq> [] \<and> (e = Canceled \<or> e = DeadlineExceeded) \<and> \<not> locked c \<longrightarrow>
            (\<exists>c'. exec (shutdown_step r)
                     (replicate (Suc (length fs)) Coord @ [Coord, Cancel e, CtxDone]) c = Some c'
                 \<and> pc c' = Done (Some (JoinError [e])) \<and> running (tasks c') = length fs))
       \<and> (\<forall>as c' errs err. exec (shutdown_step r) (Coord # as) c = Some c'
             \<and> pc c' = Selecting errs \<and> ctx_err c' = Some err \<longrightarrow>
             Shutdown_ctx_done c'
               = Some (c'\<lparr>locked := False, pc := Done (Some (JoinError (errs @ [err])))\<rparr>)
             \<and> mset errs \<subseteq># mset (concat (map recorded (tasks c'))))
       \<and> (\<forall>as c'. exec (hook_step r) (Coord # as) c = Some c' \<and> pc c' = Launching 0
             \<and> running (tasks c') \<noteq> 0 \<longrightarrow> Run r c' = None)
       \<and> (\<forall>as c' res. exec (hook_step r) (Coord # as) c = Some c' \<and> pc c' = Done res \<longrightarrow>
             running (tasks c') = 0 \<and> length (tasks c') = length fs
             \<and> mset (failures res) = mset (concat (map recorded (tasks c'))))"
proof (intro conjI allI impI)
  assume "fs \<noteq> [] \<and> (e = Canceled \<or> e = DeadlineExceeded) \<and> \<not> locked c"
  then have "fs \<noteq> []" and "e = Canceled \<or> e = DeadlineExceeded" and "\<not> locked c" by simp_all
  from shutdown_cancelled_returns [OF assms this]
  show "\<exists>c'. exec (shutdown_step r)
                     (replicate (Suc (length fs)) Coord @ [Coord, Cancel e, CtxDone]) c = Some c'
                 \<and> pc c' = Done (Some (JoinError [e])) \<and> running (tasks c') = length fs" .
next
  fix as c' errs err
  assume a: "exec (shutdown_step r) (Coord # as) c = Some c'
             \<and> pc c' = Selecting errs \<and> ctx_err c' = Some err"
  then have e: "exec (shutdown_step r) (Coord # as) c = Some c'" and p: "pc c' = Selecting errs"
    and x: "ctx_err c' = Some err" by simp_all
  from p x show "Shutdown_ctx_done c'
               = Some (c'\<lparr>locked := False, pc := Done (Some (JoinError (errs @ [err])))\<rparr>)"
    by (simp add: Shutdown_ctx_done_def Join_def nonnil_append nonnil_map_Some)
  from shutdown_reach [OF assms(1,2,3,5) e] p
  have "mset (chan c') + mset (map Some errs)
            = mset (map Some (concat (map recorded (tasks c'))))"
    by (simp add: inv_shutdown_def)
  then show "mset errs \<subseteq># mset (concat (map recorded (tasks c')))"
    by (rule collected_so_far)
next
  fix as c'
  assume a: "exec (hook_step r) (Coord # as) c = Some c' \<and> pc c' = Launching 0
             \<and> running (tasks c') \<noteq> 0"
  then have e: "exec (hook_step r) (Coord # as) c = Some c'" and p: "pc c' = Launching 0"
    and n: "running (tasks c') \<noteq> 0" by simp_all
  from hook_reach [OF assms e] p n have "wg c' \<noteq> 0" by (simp add: inv_hook_def)
  with p show "Run r c' = None" by (simp add: Run_Launching_0)
next
  fix as c' res
  assume a: "exec (hook_step r) (Coord # as) c = Some c' \<and> pc c' = Done res"
  then have e: "exec (hook_step r) (Coord # as) c = Some c'" and p: "pc c' = Done res"
    by simp_all
  from hook_reach [OF assms e] have inv: "inv_hook fs r c'" .
  with p show "running (tasks c') = 0" by (simp add: inv_hook_def)
  from inv_hook_Done_recorded [OF inv p]
  show "mset (failures res) = mset (concat (map recorded (tasks c')))" by simp
  from inv_hook_Done_recorded [OF inv p] have "map fst (tasks c') = rev fs" by simp
  then have "length (map fst (tasks c')) = length (rev fs)" by simp
  then show "length (tasks c') = length fs" by simp
qed

theorem cancellation_mid_flight_witness:
  "pc (init stuck_shutdowner None) = Start \<and> tasks (init stuck_shutdowner None) = []
   \<and> wf_reg (mem (init stuck_shutdowner None)) 0 \<and> ctx_err (init stuck_shutdowner None) = None
   \<and> \<not> locked (init stuck_shutdowner None)
   \<and> (\<exists>c'. exec (shutdown_step 0) [Coord, Coord, Coord, Cancel Canceled, CtxDone]
              (init stuck_shutdowner None) = Some c'
          \<and> pc c' = Done (Some (JoinError [Canceled])) \<and> running (tasks c') = 1)
   \<and> (\<exists>c'. exec (shutdown_step 0) [Coord, Coord, Coord, Cancel Canceled]
              (init stuck_shutdowner None) = Some c'
          \<and> pc c' = Selecting [] \<and> ctx_err c' = Some Canceled
          \<and> Shutdown_ctx_done c'
             = Some (c'\<lparr>locked := False, pc := Done (Some (JoinError [Canceled]))\<rparr>))
   \<and> (\<exists>c'. exec (hook_step 0) [Coord, Coord, Cancel Canceled] (init stuck_shutdowner None)
            = Some c'
          \<and> pc c' = Launching 0 \<and> running (tasks c') = 1 \<and> Run 0 c' = None)"
proof -
  let ?c = "init stuck_shutdowner None"
  have a: "pc ?c = Start" and b: "tasks ?c = []" and n: "ctx_err ?c = None"
    and l: "\<not> locked ?c"
    by (simp_all add: init_def)
  have w: "wf_reg (mem ?c) 0" by (simp add: init_def stuck_shutdowner_eval wf_reg_def)
  have e: "[blocking] = elems (arrays (mem ?c)) (regs (mem ?c) ! 0)"
    by (simp add: init_def stuck_shutdowner_eval elems_def)
  note rp = cancellation_mid_flight [OF a b w n e, of Canceled]
  from rp l have "\<exists>c'. exec (shutdown_step 0)
                     (replicate (Suc (length [blocking])) Coord @ [Coord, Cancel Canceled, CtxDone])
                     ?c = Some c'
                 \<and> pc c' = Done (Some (JoinError [Canceled]))
                 \<and> running (tasks c') = length [blocking]" by blast
  then have r1: "\<exists>c'. exec (shutdown_step 0) [Coord, Coord, Coord, Cancel Canceled, CtxDone] ?c
                   = Some c'
                 \<and> pc c' = Done (Some (JoinError [Canceled])) \<and> running (tasks c') = 1"
    by (simp add: numeral_eq_Suc)
  obtain c2 where x2: "exec (shutdown_step 0) (Coord # [Coord, Coord, Cancel Canceled]) ?c = Some c2"
    and p2: "pc c2 = Selecting []" and n2: "ctx_err c2 = Some Canceled"
    by (simp add: stuck_shutdowner_eval init_def Shutdown_def cancel_def at_def)
  from rp x2 p2 n2 have r2: "Shutdown_ctx_done c2
             = Some (c2\<lparr>locked := False, pc := Done (Some (JoinError ([] @ [Canceled])))\<rparr>)"
    by blast
  obtain c3 where x3: "exec (hook_step 0) (Coord # [Coord, Cancel Canceled]) ?c = Some c3"
    and p3: "pc c3 = Launching 0" and n3: "running (tasks c3) = 1"
    by (simp add: stuck_shutdowner_eval init_def Run_def make_slice_def copy_slice_def cancel_def
        at_def Let_def running_def)
  from rp x3 p3 n3 have r3: "Run 0 c3 = None" by auto
  from a b w n l r1 x2 p2 n2 r2 x3 p3 n3 r3 show ?thesis by auto
qed

text \<open>
  Claim C5 as stated fails for \<^verbatim>\<open>Run\<close> of hook.go.  With one registered callback
  that blocks, and the context cancelled after the launch: the coordinator is in
  \<^verbatim>\<open>wg.Wait()\<close>, the callback has not finished, and the coordinator has no step: it
  does not return.  And with a callback that returns nil after the cancellation,
  \<^verbatim>\<open>Run\<close> returns nil: the cancellation error is not part of the result.
\<close>

theorem Run_waits_counterexample:
  "map_option pc (exec (hook_step 0) [Coord, Coord, Cancel Canceled] (init stuck_world None))
   = Some (Launching 0)
   \<and> map_option ctx_err (exec (hook_step 0) [Coord, Coord, Cancel Canceled] (init stuck_world None))
   = Some (Some Canceled)
   \<and> map_option (map snd \<circ> tasks)
       (exec (hook_step 0) [Coord, Coord, Cancel Canceled] (init stuck_world None))
   = Some [None]
   \<and> exec (hook_step 0) [Coord, Coord, Cancel Canceled, Coord] (init stuck_world None) = None
   \<and> map_option pc
       (exec (hook_step 0) [Coord, Coord, Cancel Canceled, Task 0, Coord]
          (init (Add 0 0 [ok_hook] (fst (New empty_world))) None))
   = Some (Done None)"
  by (simp add: stuck_world_eval init_def Run_def hook_task_def make_slice_def copy_slice_def
      at_def cancel_def finish_def Join_def Let_def blocking_def ok_hook_def New_def Add_def
      append_slice_def elems_def empty_world_def numeral_eq_Suc)

end
